theory Spec2Isabelle
  imports Main "HOL-Library.AList"
begin

section \<open>Data model of the task loop (\<^verbatim>\<open>yosys_mau/task_loop/_task.py\<close>)\<close>

text \<open>
  Python objects are referred to by identifiers: a task is an index into the list of all
  tasks, an event-cursor future is a key of the future heap, an asyncio task created by
  \<^verbatim>\<open>Task.background\<close> is an index into the list of created asyncio tasks, and a user
  callable registered as error handler is an opaque number.
\<close>

type_synonym tid = nat

type_synonym fid = nat

type_synonym aid = nat

type_synonym hid = nat

text \<open>
  The done-callbacks registered on a gate are closures, compared by identity; every
  evaluation of a \<^verbatim>\<open>lambda\<close> expression makes a new one, referred to by a number.
\<close>

type_synonym cid = nat

text \<open>The literal type \<^verbatim>\<open>TaskState\<close>.\<close>

datatype task_state =
  Preparing | Pending | Running | Waiting | Done | Cancelled | Discarded | Failed

text \<open>
  Exceptions. An exception object has a class and a \<^verbatim>\<open>__cause__\<close>. The classes
  \<^verbatim>\<open>TaskCancelled\<close>, \<^verbatim>\<open>DependencyCancelled\<close> and \<^verbatim>\<open>ChildCancelled\<close> derive from
  \<^verbatim>\<open>asyncio.CancelledError\<close>; the \<^verbatim>\<open>TaskAborted\<close> classes carry the affected task.
  \<^verbatim>\<open>UserError\<close> stands for any exception raised by user code.
\<close>

datatype exc_class =
    UserError nat
  | CancelledError
  | InvalidStateError
  | AssertionError
  | AttributeError
  | KeyError
  | TaskLoopError
  | TaskFailed tid
  | TaskCancelled tid
  | DependencyFailed tid
  | DependencyCancelled tid
  | ChildFailed tid
  | ChildCancelled tid

datatype exc = Exc (exc_class: exc_class) (cause: "exc option")

text \<open>\<^verbatim>\<open>isinstance(exception, asyncio.CancelledError)\<close>\<close>

fun is_cancelled_error :: "exc \<Rightarrow> bool" where
  "is_cancelled_error (Exc CancelledError _) = True"
| "is_cancelled_error (Exc (TaskCancelled _) _) = True"
| "is_cancelled_error (Exc (DependencyCancelled _) _) = True"
| "is_cancelled_error (Exc (ChildCancelled _) _) = True"
| "is_cancelled_error _ = False"

text \<open>
  The gates \<^verbatim>\<open>__started\<close> and \<^verbatim>\<open>__finished\<close> are \<^verbatim>\<open>asyncio.Future[None]\<close>: pending, or
  done with a result, an exception or a cancellation.
\<close>

datatype gate = GPending | GResult | GException exc | GCancelled

definition gate_done :: "gate \<Rightarrow> bool" where
  "gate_done g = (g \<noteq> GPending)"

text \<open>
  \<^verbatim>\<open>Future.exception()\<close>: raises \<^verbatim>\<open>CancelledError\<close> on a cancelled future and
  \<^verbatim>\<open>InvalidStateError\<close> on a pending one, returns \<^verbatim>\<open>None\<close> for a result.
\<close>

fun gate_exception :: "gate \<Rightarrow> exc + exc option" where
  "gate_exception GPending = Inl (Exc InvalidStateError None)"
| "gate_exception GCancelled = Inl (Exc CancelledError None)"
| "gate_exception GResult = Inr None"
| "gate_exception (GException e) = Inr (Some e)"

text \<open>
  Events. \<^verbatim>\<open>type(event).mro()\<close> is the list of classes from the event's class up to
  \<^verbatim>\<open>object\<close>; a user event carries the linearisation of its own class.
\<close>

datatype etype = ObjectT | TaskEventT | DebugEventT | TaskStateChangeT | UserT nat

datatype event =
    StateChange tid "task_state option" task_state
  | UserEvent tid "etype list" nat

fun source :: "event \<Rightarrow> tid" where
  "source (StateChange t _ _) = t"
| "source (UserEvent t _ _) = t"

fun mro :: "event \<Rightarrow> etype list" where
  "mro (StateChange _ _ _) = [TaskStateChangeT, DebugEventT, TaskEventT, ObjectT]"
| "mro (UserEvent _ m _) = m"

text \<open>
  An event cursor is an \<^verbatim>\<open>asyncio.Future[TaskEventCursor]\<close>; its result is the pair of
  an event and the next cursor (\<^verbatim>\<open>TaskEventCursor(event, tail)\<close>).
\<close>

datatype cfut = CPending | CResult event fid | CCancelled

text \<open>
  Callbacks handed to the event loop: the done-callbacks that \<^verbatim>\<open>depends_on\<close> and
  \<^verbatim>\<open>__add_child\<close> register on a finished-gate, the bound method \<^verbatim>\<open>__discard_via\<close>
  with its argument, the bound method \<^verbatim>\<open>__check_start\<close>, and the closure
  \<^verbatim>\<open>lambda: task.__cancel(discard=True)\<close> created in \<^verbatim>\<open>__cleanup\<close>. That closure does
  not hold a task: it refers to the local variable \<^verbatim>\<open>task\<close> of the \<^verbatim>\<open>__cleanup\<close> call
  that made it, and reads the variable when it runs. \<^verbatim>\<open>CancelTaskVar t\<close> is the closure
  made by the \<^verbatim>\<open>__cleanup\<close> call of task \<open>t\<close>.
\<close>

datatype callback =
    DependencyFinished tid tid
  | ChildFinished tid tid
  | DiscardVia tid tid
  | CheckStart tid
  | CancelTaskVar tid

text \<open>
  The coroutine \<^verbatim>\<open>Task.__task_main\<close> of a task, its driver, is suspended at one of its
  \<^verbatim>\<open>await\<close> expressions, has not made its first step, or has ended. The wrapper
  coroutine of a background task has not made its first step, is running its target, or
  has ended.
\<close>

datatype driver_pc = NotStarted | InPrepare | AwaitStarted | InRun | AwaitFinished | Ended

datatype aio_phase = AioCreated | AioRunning | AioEnded

text \<open>What a background coroutine runs: an error handler applied to an exception, or user code.\<close>

datatype target = HandlerCall hid exc | UserTarget nat

record aio_task =
  owner :: tid
  target :: target
  wait :: bool
  aio_cancelled :: bool

text \<open>
  The attributes of a \<^verbatim>\<open>Task\<close>. The parent of a task is fixed by the constructor, so the
  chain \<^verbatim>\<open>__parent\<close>, \<^verbatim>\<open>__parent.__parent\<close>, ... is kept as the list \<open>ancestors\<close>
  (nearest first, empty for the root). The ordered sets are lists of their elements in
  insertion order. The dictionaries \<^verbatim>\<open>__pending_dependencies\<close> and \<^verbatim>\<open>__pending_children\<close>
  map a task to the done-callback registered on its finished-gate; they are association
  lists in insertion order. \<open>finished_callbacks\<close> are the done-callbacks registered on
  \<^verbatim>\<open>__finished\<close>, each closure with what it calls; \<open>main_cancelled\<close> records that
  \<^verbatim>\<open>__aio_main_task.cancel()\<close> was called; \<open>lease\<close> holds the \<^verbatim>\<open>ready\<close> flag of the
  lease held, if any; \<open>driver\<close> is where the coroutine of \<^verbatim>\<open>__aio_main_task\<close> stands.
\<close>

record task =
  ancestors :: "tid list"
  children :: "tid list"
  dependencies :: "tid list"
  pending_dependencies :: "(tid \<times> cid) list"
  pending_children :: "(tid \<times> cid) list"
  reverse_dependencies :: "tid list"
  error_handlers :: "tid option \<Rightarrow> hid option"
  state :: task_state
  started :: gate
  finished :: gate
  finished_callbacks :: "(cid \<times> callback) list"
  cleaned_up :: bool
  cancelled_by :: "tid option"
  discard :: bool
  use_lease :: bool
  lease :: "bool option"
  main_cancelled :: bool
  aio_background_tasks :: "aid list"
  aio_wait_background_tasks :: "aid list"
  driver :: driver_pc

definition parent :: "task \<Rightarrow> tid option" where
  "parent t = (case ancestors t of [] \<Rightarrow> None | p # _ \<Rightarrow> Some p)"

text \<open>
  The state of the program: all tasks; the \<^verbatim>\<open>__event_cursors\<close> dictionary of every task
  (event type to cursor future, in insertion order); the heap of cursor futures with its
  allocation counter; the callbacks queued by \<^verbatim>\<open>call_soon\<close>; the number of closures
  made for done-callbacks; the asyncio tasks created
  by \<^verbatim>\<open>asyncio.create_task\<close> for background coroutines and where their wrapper
  coroutines stand; the local variable \<^verbatim>\<open>task\<close> of
  each task's \<^verbatim>\<open>__cleanup\<close> call; the lease the job server hands out next
  (its \<^verbatim>\<open>ready\<close> flag) and the tasks whose \<^verbatim>\<open>__check_start\<close> waits for a lease; and the
  history of the events on which \<^verbatim>\<open>emit\<close> was called.
\<close>

record gstate =
  tasks :: "task list"
  cursors :: "tid \<Rightarrow> (etype \<times> fid) list"
  futs :: "fid \<Rightarrow> cfut"
  nfut :: nat
  soon :: "callback list"
  ncb :: nat
  aio_tasks :: "aio_task list"
  aio_phase :: "aid \<Rightarrow> aio_phase"
  cleanup_task_var :: "tid \<Rightarrow> tid option"
  job_ready :: bool
  lease_callbacks :: "tid list"
  emitted :: "event list"

text \<open>
  A Python call either returns or raises; in both cases the mutations made so far stay.
  Every operation returns the state it leaves together with the exception it raised, if
  any.
\<close>

type_synonym outcome = "gstate \<times> exc option"

definition upd_task :: "tid \<Rightarrow> (task \<Rightarrow> task) \<Rightarrow> gstate \<Rightarrow> gstate" where
  "upd_task t f s = s\<lparr>tasks := (tasks s)[t := f (tasks s ! t)]\<rparr>"

text \<open>\<^verbatim>\<open>Task.is_finished\<close>\<close>

definition is_finished :: "task \<Rightarrow> bool" where
  "is_finished t = (state t \<in> {Done, Cancelled, Discarded, Failed})"

text \<open>
  Modelled from the spec: \<^verbatim>\<open>yosys_mau.stable_set.StableSet\<close> is not among the sources; the
  spec calls these attributes ordered sets. \<open>stable_add\<close> appends an element that is not
  yet present, \<open>stable_remove\<close> deletes one.
\<close>

definition stable_add :: "'a \<Rightarrow> 'a list \<Rightarrow> 'a list" where
  "stable_add x xs = (if x \<in> set xs then xs else xs @ [x])"

definition stable_remove :: "'a \<Rightarrow> 'a list \<Rightarrow> 'a list" where
  "stable_remove x xs = removeAll x xs"

section \<open>The event bus\<close>

text \<open>
  The inner loop of \<^verbatim>\<open>Task.__emit_event__\<close> for one task \<open>cur\<close>: for every class of the
  event's linearisation that has a cursor, create the next future, resolve the cursor
  with the event and the next future, and install the next future as the cursor.
  \<^verbatim>\<open>Future.set_result\<close> raises \<^verbatim>\<open>InvalidStateError\<close> on a future that is not pending.
\<close>

fun deliver_mro :: "event \<Rightarrow> tid \<Rightarrow> etype list \<Rightarrow> gstate \<Rightarrow> outcome" where
  "deliver_mro ev cur [] s = (s, None)"
| "deliver_mro ev cur (m # ms) s =
     (case map_of (cursors s cur) m of
        None \<Rightarrow> deliver_mro ev cur ms s
      | Some c \<Rightarrow>
          (let n = nfut s;
               s1 = s\<lparr>futs := (futs s)(n := CPending), nfut := Suc n\<rparr>
           in if futs s1 c \<noteq> CPending then (s1, Some (Exc InvalidStateError None))
              else deliver_mro ev cur ms
                     (s1\<lparr>futs := (futs s1)(c := CResult ev n),
                         cursors := (cursors s1)(cur := AList.update m n (cursors s1 cur))\<rparr>)))"

text \<open>The outer loop: \<^verbatim>\<open>current = self\<close>, then \<^verbatim>\<open>current = current.__parent\<close> until \<^verbatim>\<open>None\<close>.\<close>

fun emit_walk :: "event \<Rightarrow> tid list \<Rightarrow> gstate \<Rightarrow> outcome" where
  "emit_walk ev [] s = (s, None)"
| "emit_walk ev (cur # rest) s =
     (case deliver_mro ev cur (mro ev) s of
        (s1, Some x) \<Rightarrow> (s1, Some x)
      | (s1, None) \<Rightarrow> emit_walk ev rest s1)"

text \<open>\<^verbatim>\<open>Task.__emit_event__\<close>\<close>

definition emit_event :: "tid \<Rightarrow> event \<Rightarrow> gstate \<Rightarrow> outcome" where
  "emit_event self ev s =
     (if source ev \<noteq> self then (s, Some (Exc AssertionError None))
      else emit_walk ev (self # ancestors (tasks s ! self)) s)"

text \<open>\<^verbatim>\<open>TaskEvent.emit\<close>; the call is recorded in \<open>emitted\<close>.\<close>

definition emit :: "event \<Rightarrow> gstate \<Rightarrow> outcome" where
  "emit ev s = emit_event (source ev) ev (s\<lparr>emitted := emitted s @ [ev]\<rparr>)"

text \<open>
  \<^verbatim>\<open>Task.events\<close>: the cursor for the event type, created if absent. The stream returned
  starts at that cursor.
\<close>

definition events :: "tid \<Rightarrow> etype \<Rightarrow> gstate \<Rightarrow> gstate \<times> fid" where
  "events self ty s =
     (case map_of (cursors s self) ty of
        Some c \<Rightarrow> (s, c)
      | None \<Rightarrow>
          (s\<lparr>futs := (futs s)(nfut s := CPending), nfut := Suc (nfut s),
             cursors := (cursors s)(self := AList.update ty (nfut s) (cursors s self))\<rparr>,
           nfut s))"

text \<open>
  \<^verbatim>\<open>TaskEventStream.__anext__\<close> on the stream with cursor \<open>c\<close> and filter \<open>wh\<close>. Awaiting
  a pending cursor suspends the coroutine (\<open>Suspended\<close>, with the cursor the stream
  has reached); a cancelled cursor ends the stream; a resolved one yields its event if
  the filter accepts it, and the loop goes on with the tail otherwise. The value \<open>None\<close>
  of the partial function is a loop that never ends.
\<close>

datatype anext_result = Yield event fid | StopAsyncIteration | Suspended fid

partial_function (option) anext :: "(fid \<Rightarrow> cfut) \<Rightarrow> (event \<Rightarrow> bool) \<Rightarrow> fid \<Rightarrow> anext_result option" where
  "anext h wh c =
     (case h c of
        CPending \<Rightarrow> Some (Suspended c)
      | CCancelled \<Rightarrow> Some StopAsyncIteration
      | CResult ev nxt \<Rightarrow> if wh ev then Some (Yield ev nxt) else anext h wh nxt)"

text \<open>
  The loop \<^verbatim>\<open>async for event in self\<close> of \<^verbatim>\<open>TaskEventStream.handle\<close>: it calls
  \<^verbatim>\<open>__anext__\<close> again and again and hands each event to the handler. The result is the
  list of events handed over, in that order, and how the loop stands: suspended at a
  pending cursor or ended by \<^verbatim>\<open>StopAsyncIteration\<close>.
\<close>

partial_function (option) consume ::
  "(fid \<Rightarrow> cfut) \<Rightarrow> (event \<Rightarrow> bool) \<Rightarrow> fid \<Rightarrow> (event list \<times> anext_result) option" where
  "consume h wh c =
     (case anext h wh c of
        None \<Rightarrow> None
      | Some (Yield ev n) \<Rightarrow>
          Option.bind (consume h wh n) (\<lambda>(es, r). Some (ev # es, r))
      | Some r \<Rightarrow> Some ([], r))"

section \<open>The task state machine\<close>

text \<open>\<^verbatim>\<open>Task.__change_state\<close>; the event is created and emitted with \<open>self\<close> as current task.\<close>

definition change_state :: "tid \<Rightarrow> task_state \<Rightarrow> gstate \<Rightarrow> outcome" where
  "change_state self new_state s =
     (let old_state = state (tasks s ! self) in
      if old_state = new_state then (s, None)
      else
        let s1 = upd_task self (\<lambda>t. t\<lparr>state := new_state\<rparr>) s in
        if parent (tasks s1 ! self) \<noteq> None
        then emit (StateChange self (Some old_state) new_state) s1
        else (s1, None))"

text \<open>
  Resolving the finished-gate (\<^verbatim>\<open>set_result\<close>, \<^verbatim>\<open>set_exception\<close> or \<^verbatim>\<open>cancel\<close> on a
  pending future): the future takes its value and its done-callbacks are handed to
  \<^verbatim>\<open>call_soon\<close> in registration order.
\<close>

definition resolve_finished :: "tid \<Rightarrow> gate \<Rightarrow> gstate \<Rightarrow> gstate" where
  "resolve_finished self g s =
     (upd_task self (\<lambda>t. t\<lparr>finished := g, finished_callbacks := []\<rparr>) s)
       \<lparr>soon := soon s @ map snd (finished_callbacks (tasks s ! self))\<rparr>"

text \<open>
  \<^verbatim>\<open>add_done_callback\<close> and \<^verbatim>\<open>remove_done_callback\<close> on the finished-gate of a task.
  The closure \<open>c\<close> that calls \<open>cb\<close> is called soon when the gate is already done and is
  kept with the gate otherwise; removing a closure removes the entries equal to it.
  \<open>new_closure\<close> is the evaluation of a \<^verbatim>\<open>lambda\<close> expression.
\<close>

definition new_closure :: "gstate \<Rightarrow> gstate \<times> cid" where
  "new_closure s = (s\<lparr>ncb := Suc (ncb s)\<rparr>, ncb s)"

definition add_done_callback :: "tid \<Rightarrow> cid \<Rightarrow> callback \<Rightarrow> gstate \<Rightarrow> gstate" where
  "add_done_callback task c cb s =
     (if gate_done (finished (tasks s ! task)) then s\<lparr>soon := soon s @ [cb]\<rparr>
      else upd_task task (\<lambda>t. t\<lparr>finished_callbacks := finished_callbacks t @ [(c, cb)]\<rparr>) s)"

definition remove_done_callback :: "tid \<Rightarrow> cid \<Rightarrow> gstate \<Rightarrow> gstate" where
  "remove_done_callback task c s =
     upd_task task (\<lambda>t. t\<lparr>finished_callbacks :=
        filter (\<lambda>p. fst p \<noteq> c) (finished_callbacks t)\<rparr>) s"

text \<open>
  The first statements of \<^verbatim>\<open>Task.__cancel\<close> after the \<^verbatim>\<open>is_finished\<close> test: cancel the
  driver, drop the lease, cancel the gates that are not done.
\<close>

definition cancel_gates :: "tid \<Rightarrow> gstate \<Rightarrow> gstate" where
  "cancel_gates self s =
     (let s1 = upd_task self (\<lambda>t. t\<lparr>main_cancelled := True, lease := None\<rparr>) s;
          s2 = (if \<not> gate_done (started (tasks s1 ! self))
                then upd_task self (\<lambda>t. t\<lparr>started := GCancelled\<rparr>) s1 else s1)
      in if \<not> gate_done (finished (tasks s2 ! self))
         then resolve_finished self GCancelled s2 else s2)"

text \<open>
  The number of tasks that are not terminal. Every task that \<^verbatim>\<open>__cancel\<close> marks lowers it,
  which bounds the recursion over the children.
\<close>

definition live_count :: "task list \<Rightarrow> nat" where
  "live_count ts = length (filter (\<lambda>t. \<not> is_finished t) ts)"

text \<open>
  \<^verbatim>\<open>Task.__cancel\<close> (\<open>priv_cancel\<close>) and its loop over \<^verbatim>\<open>self.__children\<close>
  (\<open>priv_cancel_children\<close>). The hook \<^verbatim>\<open>on_cancel\<close> of the base class does nothing.
  A Python reference always denotes an object; the test \<open>length (tasks s) \<le> self\<close> only
  makes the function total on states in which an identifier denotes no task.
\<close>

function priv_cancel :: "bool \<Rightarrow> tid \<Rightarrow> gstate \<Rightarrow> outcome"
  and priv_cancel_children :: "bool \<Rightarrow> tid list \<Rightarrow> gstate \<Rightarrow> outcome" where
  "priv_cancel discard_flag self s =
     (if length (tasks s) \<le> self \<or> is_finished (tasks s ! self) then (s, None)
      else
        (case change_state self (if discard_flag then Discarded else Cancelled)
                (cancel_gates self s) of
           (s1, Some x) \<Rightarrow> (s1, Some x)
         | (s1, None) \<Rightarrow> priv_cancel_children discard_flag (children (tasks s1 ! self)) s1))"
| "priv_cancel_children discard_flag [] s = (s, None)"
| "priv_cancel_children discard_flag (child # rest) s =
     (case priv_cancel discard_flag child s of
        (s1, Some x) \<Rightarrow> (s1, Some x)
      | (s1, None) \<Rightarrow> priv_cancel_children discard_flag rest s1)"
  by pat_completeness auto

lemma tasks_deliver_mro: "tasks (fst (deliver_mro ev cur ms s)) = tasks s"
  by (induction ev cur ms s rule: deliver_mro.induct) (auto simp: Let_def split: option.splits)

lemma tasks_emit_walk: "tasks (fst (emit_walk ev chain s)) = tasks s"
proof (induction chain arbitrary: s)
  case Nil
  then show ?case by simp
next
  case (Cons c chain)
  show ?case
  proof (cases "deliver_mro ev c (mro ev) s")
    case (Pair s1 r)
    have "tasks s1 = tasks s" using tasks_deliver_mro[of ev c "mro ev" s] Pair by simp
    then show ?thesis using Pair Cons by (cases r) auto
  qed
qed

lemma tasks_emit: "tasks (fst (emit ev s)) = tasks s"
  by (simp add: emit_def emit_event_def tasks_emit_walk del: emit_walk.simps)

lemma tasks_change_state:
  "tasks (fst (change_state self new s)) = (tasks s)[self := (tasks s ! self)\<lparr>state := new\<rparr>]"
  by (auto simp: change_state_def Let_def tasks_emit upd_task_def)

lemma length_upd_task [simp]: "length (tasks (upd_task t f s)) = length (tasks s)"
  by (simp add: upd_task_def)

lemma nth_upd_task:
  "tasks (upd_task t f s) ! u = (if u = t \<and> t < length (tasks s) then f (tasks s ! t) else tasks s ! u)"
  by (cases "t < length (tasks s)") (auto simp: upd_task_def list_update_beyond)

lemma length_resolve_finished [simp]: "length (tasks (resolve_finished self g s)) = length (tasks s)"
  by (simp add: resolve_finished_def)

lemma nth_resolve_finished:
  "tasks (resolve_finished self g s) ! u =
     (if u = self \<and> self < length (tasks s)
      then (tasks s ! self)\<lparr>finished := g, finished_callbacks := []\<rparr> else tasks s ! u)"
  by (simp add: resolve_finished_def nth_upd_task)

lemma length_tasks_cancel_gates [simp]: "length (tasks (cancel_gates self s)) = length (tasks s)"
  by (simp add: cancel_gates_def Let_def)

lemma state_cancel_gates: "state (tasks (cancel_gates self s) ! u) = state (tasks s ! u)"
  by (simp add: cancel_gates_def Let_def nth_upd_task nth_resolve_finished)

lemma live_count_update:
  assumes "i < length ts" "\<not> is_finished (ts ! i)" "is_finished t"
  shows "live_count (ts[i := t]) < live_count ts"
proof -
  have "ts = take i ts @ (ts ! i) # drop (Suc i) ts" using assms(1) by (simp add: id_take_nth_drop)
  moreover have "ts[i := t] = take i ts @ t # drop (Suc i) ts" using assms(1) by (simp add: upd_conv_take_nth_drop)
  ultimately have "live_count ts = live_count (take i ts) + 1 + live_count (drop (Suc i) ts)"
     "live_count (ts[i := t]) = live_count (take i ts) + live_count (drop (Suc i) ts)"
    using assms(2,3) unfolding live_count_def
    by (metis (no_types, lifting) Suc_eq_plus1 add_Suc_right add_Suc filter.simps(2) filter_append length_Cons length_append,
        metis (no_types, lifting) filter.simps(2) filter_append length_append)
  then show ?thesis by simp
qed

lemma live_count_same_states:
  assumes "length ts' = length ts" "\<forall>i < length ts. is_finished (ts' ! i) = is_finished (ts ! i)"
  shows "live_count ts' = live_count ts"
  using assms
proof (induction ts arbitrary: ts')
  case Nil then show ?case by (simp add: live_count_def)
next
  case (Cons a ts)
  then obtain b tr where t': "ts' = b # tr" by (cases ts') auto
  have "is_finished b = is_finished a" using Cons.prems(2) t' by auto
  moreover have "\<forall>i < length ts. is_finished (tr ! i) = is_finished (ts ! i)"
  proof (intro allI impI)
    fix i assume "i < length ts"
    then show "is_finished (tr ! i) = is_finished (ts ! i)"
      using Cons.prems(2)[rule_format, of "Suc i"] t' by simp
  qed
  then have "live_count tr = live_count ts"
    using Cons.IH[of tr] Cons.prems(1) t' by simp
  ultimately show ?case using t' by (simp add: live_count_def)
qed

lemma live_count_mark:
  assumes "self < length (tasks s)" "\<not> is_finished (tasks s ! self)" "new \<in> {Done, Cancelled, Discarded, Failed}"
  shows "live_count (tasks (fst (change_state self new (cancel_gates self s)))) < live_count (tasks s)"
proof -
  let ?c = "tasks (cancel_gates self s)"
  have len: "length ?c = length (tasks s)" by (rule length_tasks_cancel_gates)
  have "\<forall>i < length (tasks s). is_finished (?c ! i) = is_finished (tasks s ! i)"
    by (simp add: is_finished_def state_cancel_gates)
  then have lc: "live_count ?c = live_count (tasks s)" using live_count_same_states len by blast
  have "\<not> is_finished (?c ! self)" using assms(2) by (simp add: is_finished_def state_cancel_gates)
  moreover have "is_finished ((?c ! self)\<lparr>state := new\<rparr>)" using assms(3) by (simp add: is_finished_def)
  ultimately have "live_count (?c[self := (?c ! self)\<lparr>state := new\<rparr>]) < live_count ?c"
    using live_count_update assms(1) len by simp
  then show ?thesis using lc by (simp add: tasks_change_state)
qed

lemma priv_cancel_live_count_dom:
  "priv_cancel_priv_cancel_children_dom (Inl (d, self, s)) \<Longrightarrow>
     live_count (tasks (fst (priv_cancel d self s))) \<le> live_count (tasks s)"
  "priv_cancel_priv_cancel_children_dom (Inr (d, cs, s)) \<Longrightarrow>
     live_count (tasks (fst (priv_cancel_children d cs s))) \<le> live_count (tasks s)"
proof (induction d self s and d cs s rule: priv_cancel_priv_cancel_children.pinduct)
  case (1 d self s)
  show ?case
  proof (cases "length (tasks s) \<le> self \<or> is_finished (tasks s ! self)")
    case True
    then show ?thesis using 1(1) by (simp add: priv_cancel.psimps)
  next
    case False
    let ?new = "if d then Discarded else Cancelled"
    obtain s1 r where cs: "change_state self ?new (cancel_gates self s) = (s1, r)" by force
    have lt: "live_count (tasks s1) < live_count (tasks s)"
      using live_count_mark[of self s ?new] False cs by auto
    show ?thesis
    proof (cases r)
      case None
      then show ?thesis using 1(1) 1(2)[OF False cs[symmetric] None] False cs lt
        by (simp add: priv_cancel.psimps)
    next
      case (Some x)
      then show ?thesis using 1(1) False cs lt by (simp add: priv_cancel.psimps)
    qed
  qed
next
  case (2 d s)
  then show ?case by (simp add: priv_cancel_children.psimps)
next
  case (3 d child rest s)
  obtain s1 r where pc: "priv_cancel d child s = (s1, r)" by force
  have le: "live_count (tasks s1) \<le> live_count (tasks s)" using 3(2) pc by simp
  show ?case
  proof (cases r)
    case None
    then show ?thesis using 3(1) 3(3)[OF pc[symmetric] None] pc le
      by (simp add: priv_cancel_children.psimps)
  next
    case (Some x)
    then show ?thesis using 3(1) pc le by (simp add: priv_cancel_children.psimps)
  qed
qed

termination priv_cancel
proof (relation "measures [\<lambda>x. case x of Inl (d, self, s) \<Rightarrow> live_count (tasks s) | Inr (d, cs, s) \<Rightarrow> live_count (tasks s),
                           \<lambda>x. case x of Inl (d, self, s) \<Rightarrow> 0 | Inr (d, cs, s) \<Rightarrow> Suc (length cs)]", goal_cases)
  case 1
  then show ?case by simp
next
  case (2 d self s x1 x2)
  then have "fst (change_state self (if d then Discarded else Cancelled) (cancel_gates self s)) = x1"
    by (metis fst_conv)
  moreover have "live_count (tasks (fst (change_state self (if d then Discarded else Cancelled) (cancel_gates self s))))
       < live_count (tasks s)"
    using 2 by (intro live_count_mark) auto
  ultimately show ?case by simp
next
  case (3 d child rest s)
  then show ?case by simp
next
  case (4 d child rest s x1 x2)
  then have "fst (priv_cancel d child s) = x1" by (metis fst_conv)
  then show ?case using priv_cancel_live_count_dom(1)[of d child s] 4 by auto
qed

section \<open>Cleanup, failure and the propagator\<close>

text \<open>
  The loops of \<^verbatim>\<open>Task.__cleanup\<close>. Both loops over the items of the pending children
  and of the pending dependencies bind the local variable \<^verbatim>\<open>task\<close>. The second loop
  removes the done-callback kept in the dictionary, removes \<open>self\<close> from the reverse dependencies of \<^verbatim>\<open>task\<close>, and when
  that set is empty and \<^verbatim>\<open>task.discard\<close> holds it hands the closure
  \<^verbatim>\<open>lambda: task.__cancel(discard=True)\<close> to \<^verbatim>\<open>call_soon\<close>.
\<close>

fun cleanup_children :: "tid \<Rightarrow> (tid \<times> cid) list \<Rightarrow> gstate \<Rightarrow> gstate" where
  "cleanup_children self [] s = s"
| "cleanup_children self ((task, callback) # rest) s =
     (let s1 = s\<lparr>cleanup_task_var := (cleanup_task_var s)(self := Some task)\<rparr>;
          s2 = remove_done_callback task callback s1
      in cleanup_children self rest s2)"

fun cleanup_dependencies :: "tid \<Rightarrow> (tid \<times> cid) list \<Rightarrow> gstate \<Rightarrow> gstate" where
  "cleanup_dependencies self [] s = s"
| "cleanup_dependencies self ((task, callback) # rest) s =
     (let s1 = s\<lparr>cleanup_task_var := (cleanup_task_var s)(self := Some task)\<rparr>;
          s2 = remove_done_callback task callback s1;
          s3 = upd_task task (\<lambda>t. t\<lparr>reverse_dependencies :=
                  stable_remove self (reverse_dependencies t)\<rparr>) s2;
          s4 = (if reverse_dependencies (tasks s3 ! task) = [] \<and> discard (tasks s3 ! task)
                then s3\<lparr>soon := soon s3 @ [CancelTaskVar self]\<rparr> else s3)
      in cleanup_dependencies self rest s4)"

text \<open>\<^verbatim>\<open>aio_task.cancel()\<close> for every task of a set of background tasks.\<close>

fun cancel_aio_tasks :: "aid list \<Rightarrow> gstate \<Rightarrow> gstate" where
  "cancel_aio_tasks [] s = s"
| "cancel_aio_tasks (a # rest) s =
     cancel_aio_tasks rest
       (s\<lparr>aio_tasks := (aio_tasks s)[a := (aio_tasks s ! a)\<lparr>aio_cancelled := True\<rparr>]\<rparr>)"

text \<open>\<^verbatim>\<open>cursor.cancel()\<close> for every cursor; cancelling a future that is done changes nothing.\<close>

fun cancel_cursors :: "fid list \<Rightarrow> gstate \<Rightarrow> gstate" where
  "cancel_cursors [] s = s"
| "cancel_cursors (c # rest) s =
     cancel_cursors rest
       (if futs s c = CPending then s\<lparr>futs := (futs s)(c := CCancelled)\<rparr> else s)"

text \<open>\<^verbatim>\<open>Task.__cleanup\<close>; the hook \<^verbatim>\<open>on_cleanup\<close> of the base class does nothing.\<close>

definition cleanup :: "tid \<Rightarrow> gstate \<Rightarrow> gstate" where
  "cleanup self s =
     (if cleaned_up (tasks s ! self) then s
      else
        let s1 = upd_task self (\<lambda>t. t\<lparr>cleaned_up := True\<rparr>) s;
            s2 = cleanup_children self (pending_children (tasks s1 ! self)) s1;
            s3 = cleanup_dependencies self (pending_dependencies (tasks s2 ! self)) s2;
            s4 = cancel_aio_tasks (aio_background_tasks (tasks s3 ! self)) s3;
            s5 = cancel_aio_tasks (aio_wait_background_tasks (tasks s4 ! self)) s4
        in cancel_cursors (map snd (cursors s5 self)) s5)"

text \<open>
  \<^verbatim>\<open>Task.__failed\<close>. First the statements between the test and \<^verbatim>\<open>__change_state\<close>:
  drop the lease and set the exception on the gates that are not done.
\<close>

definition fail_gates :: "tid \<Rightarrow> exc \<Rightarrow> gstate \<Rightarrow> gstate" where
  "fail_gates self e s =
     (let s1 = upd_task self (\<lambda>t. t\<lparr>lease := None\<rparr>) s;
          s2 = (if \<not> gate_done (started (tasks s1 ! self))
                then upd_task self (\<lambda>t. t\<lparr>started := GException e\<rparr>) s1 else s1)
      in if \<not> gate_done (finished (tasks s2 ! self))
         then resolve_finished self (GException e) s2 else s2)"

definition failed :: "tid \<Rightarrow> exc option \<Rightarrow> gstate \<Rightarrow> outcome" where
  "failed self exc s =
     (case exc of
        None \<Rightarrow> (s, None)
      | Some e \<Rightarrow>
          if is_finished (tasks s ! self) then (s, None)
          else
            (case change_state self Failed (fail_gates self e s) of
               (s4, Some x) \<Rightarrow> (s4, Some x)
             | (s4, None) \<Rightarrow> priv_cancel_children True (children (tasks s4 ! self)) s4))"

text \<open>
  \<^verbatim>\<open>Task.background\<close>. The asyncio task created is the last element of \<open>aio_tasks\<close>;
  its \<open>wait\<close> field is the value of the variable \<^verbatim>\<open>wait\<close> that the wrapper coroutine
  reads when it ends.
\<close>

definition background :: "tid \<Rightarrow> target \<Rightarrow> bool \<Rightarrow> bool \<Rightarrow> gstate \<Rightarrow> outcome" where
  "background self tgt wait_flag error_handler s =
     (if \<not> (error_handler \<or> state (tasks s ! self) \<in> {Running, Waiting})
      then (s, Some (Exc AssertionError None))
      else
        let wait1 = (if error_handler \<and> is_finished (tasks s ! self) then False else wait_flag);
            a = length (aio_tasks s);
            s1 = s\<lparr>aio_tasks := aio_tasks s @
                    [\<lparr>owner = self, target = tgt, wait = wait1, aio_cancelled = False\<rparr>]\<rparr>
        in if error_handler \<and> is_finished (tasks s ! self) then (s1, None)
           else if wait1
           then (upd_task self (\<lambda>t. t\<lparr>aio_wait_background_tasks :=
                    stable_add a (aio_wait_background_tasks t)\<rparr>) s1, None)
           else (upd_task self (\<lambda>t. t\<lparr>aio_background_tasks :=
                    stable_add a (aio_background_tasks t)\<rparr>) s1, None))"

text \<open>
  \<^verbatim>\<open>Task.__propagate_failure\<close>, in the three blocks of its body. The argument \<^verbatim>\<open>wrap\<close>
  is absent or one of the two pairs of exception classes the callers pass.
\<close>

datatype wrap = DependencyWrap | ChildWrap

fun wrap_failed :: "wrap \<Rightarrow> tid \<Rightarrow> exc_class" where
  "wrap_failed DependencyWrap t = DependencyFailed t"
| "wrap_failed ChildWrap t = ChildFailed t"

fun wrap_cancelled :: "wrap \<Rightarrow> tid \<Rightarrow> exc_class" where
  "wrap_cancelled DependencyWrap t = DependencyCancelled t"
| "wrap_cancelled ChildWrap t = ChildCancelled t"

text \<open>The block \<^verbatim>\<open>if exception is None\<close>: read the exception of the finished-gate of \<^verbatim>\<open>task\<close>.\<close>

definition fetch_exception :: "tid \<Rightarrow> exc option \<Rightarrow> gstate \<Rightarrow> exc + exc option" where
  "fetch_exception task exception s =
     (case exception of
        Some e \<Rightarrow> Inr (Some e)
      | None \<Rightarrow>
          (case gate_exception (finished (tasks s ! task)) of
             Inl x \<Rightarrow> if is_cancelled_error x then Inr (Some x) else Inl x
           | Inr r \<Rightarrow> Inr r))"

text \<open>The block \<^verbatim>\<open>if wrap\<close>.\<close>

definition wrap_exception :: "wrap option \<Rightarrow> tid \<Rightarrow> exc \<Rightarrow> exc" where
  "wrap_exception wrap task exception =
     (case wrap of
        None \<Rightarrow> exception
      | Some w \<Rightarrow>
          if is_cancelled_error exception then Exc (wrap_cancelled w task) None
          else Exc (wrap_failed w task) (Some exception))"

definition propagate_failure :: "tid \<Rightarrow> tid \<Rightarrow> exc option \<Rightarrow> wrap option \<Rightarrow> gstate \<Rightarrow> outcome" where
  "propagate_failure self task exception wrap s =
     (case fetch_exception task exception s of
        Inl x \<Rightarrow> (s, Some x)
      | Inr None \<Rightarrow> (s, None)
      | Inr (Some e0) \<Rightarrow>
          let e = wrap_exception wrap task e0 in
          (case error_handlers (tasks s ! self) (Some task) of
             Some handler \<Rightarrow> background self (HandlerCall handler e) True True s
           | None \<Rightarrow>
               (case error_handlers (tasks s ! self) None of
                  Some handler \<Rightarrow> background self (HandlerCall handler e) True True s
                | None \<Rightarrow>
                    if is_cancelled_error e
                    then (s\<lparr>soon := soon s @ [DiscardVia self task]\<rparr>, None)
                    else failed self (Some e) s)))"

text \<open>
  Modelled from the spec: the job server client (\<^verbatim>\<open>job_server\<close>) is not among the sources.
  By the spec \<^verbatim>\<open>request_lease()\<close> returns a lease with a \<^verbatim>\<open>ready\<close> flag and a registration
  of ready-callbacks. A lease is its \<^verbatim>\<open>ready\<close> flag, \<open>job_ready\<close> is the flag of the lease
  handed out, and \<open>lease_callbacks\<close> holds the tasks whose bound method waits for a lease.
\<close>

definition request_lease :: "gstate \<Rightarrow> bool" where
  "request_lease s = job_ready s"

definition add_ready_callback :: "tid \<Rightarrow> gstate \<Rightarrow> gstate" where
  "add_ready_callback self s = s\<lparr>lease_callbacks := lease_callbacks s @ [self]\<rparr>"

text \<open>\<^verbatim>\<open>Task.__check_start\<close>; \<^verbatim>\<open>set_result\<close> raises on a future that is done.\<close>

definition check_start :: "tid \<Rightarrow> gstate \<Rightarrow> outcome" where
  "check_start self s =
     (if state (tasks s ! self) \<noteq> Pending then (s, None)
      else if pending_dependencies (tasks s ! self) \<noteq> []
      then (upd_task self (\<lambda>t. t\<lparr>lease := None\<rparr>) s, None)
      else
        let s1 = (if use_lease (tasks s ! self) \<and> lease (tasks s ! self) = None
                  then upd_task self (\<lambda>t. t\<lparr>lease := Some (request_lease s)\<rparr>) s else s)
        in if use_lease (tasks s1 ! self) \<and> lease (tasks s1 ! self) = Some False
           then (add_ready_callback self s1, None)
           else if gate_done (started (tasks s1 ! self))
           then (s1, Some (Exc InvalidStateError None))
           else (upd_task self (\<lambda>t. t\<lparr>started := GResult\<rparr>) s1, None))"

text \<open>\<^verbatim>\<open>Task.__check_finish\<close>; \<^verbatim>\<open>set_result\<close> raises on a future that is done.\<close>

definition check_finish :: "tid \<Rightarrow> gstate \<Rightarrow> outcome" where
  "check_finish self s =
     (if state (tasks s ! self) \<noteq> Waiting then (s, None)
      else if pending_children (tasks s ! self) \<noteq> [] then (s, None)
      else if aio_wait_background_tasks (tasks s ! self) \<noteq> [] then (s, None)
      else
        let s1 = cleanup self s
        in if gate_done (finished (tasks s1 ! self))
           then (s1, Some (Exc InvalidStateError None))
           else (resolve_finished self GResult s1, None))"

text \<open>
  \<^verbatim>\<open>Task.__dependency_finished\<close> and \<^verbatim>\<open>Task.__child_finished\<close>, the done-callbacks;
  \<^verbatim>\<open>dict.pop\<close> raises \<^verbatim>\<open>KeyError\<close> on a missing key.
\<close>

definition dependency_finished :: "tid \<Rightarrow> tid \<Rightarrow> gstate \<Rightarrow> outcome" where
  "dependency_finished self task s =
     (if map_of (pending_dependencies (tasks s ! self)) task = None
      then (s, Some (Exc KeyError None))
      else
        let s1 = upd_task self (\<lambda>t. t\<lparr>pending_dependencies :=
                    AList.delete task (pending_dependencies t)\<rparr>) s
        in (case propagate_failure self task None (Some DependencyWrap) s1 of
              (s2, Some x) \<Rightarrow> (s2, Some x)
            | (s2, None) \<Rightarrow> check_start self s2))"

definition child_finished :: "tid \<Rightarrow> tid \<Rightarrow> gstate \<Rightarrow> outcome" where
  "child_finished self task s =
     (if map_of (pending_children (tasks s ! self)) task = None
      then (s, Some (Exc KeyError None))
      else
        let s1 = upd_task self (\<lambda>t. t\<lparr>pending_children :=
                    AList.delete task (pending_children t)\<rparr>) s
        in (case propagate_failure self task None (Some ChildWrap) s1 of
              (s2, Some x) \<Rightarrow> (s2, Some x)
            | (s2, None) \<Rightarrow> check_finish self s2))"

text \<open>
  \<^verbatim>\<open>current_task\<close>: the context variable \<^verbatim>\<open>_current_task\<close> of the caller is a task or unset.
\<close>

definition current_task :: "tid option \<Rightarrow> exc + tid" where
  "current_task current =
     (case current of None \<Rightarrow> Inl (Exc TaskLoopError None) | Some t \<Rightarrow> Inr t)"

text \<open>\<^verbatim>\<open>Task.cancel\<close>, called where the current task is \<open>current\<close>.\<close>

definition cancel :: "tid option \<Rightarrow> tid \<Rightarrow> gstate \<Rightarrow> outcome" where
  "cancel current self s =
     (case current_task current of
        Inl x \<Rightarrow> (s, Some x)
      | Inr c \<Rightarrow> priv_cancel False self (upd_task self (\<lambda>t. t\<lparr>cancelled_by := Some c\<rparr>) s))"

text \<open>\<^verbatim>\<open>Task.__discard_via\<close>\<close>

definition discard_via :: "tid \<Rightarrow> tid \<Rightarrow> gstate \<Rightarrow> outcome" where
  "discard_via self task s =
     (if cancelled_by (tasks s ! task) = Some self then (s, None)
      else priv_cancel True self s)"

text \<open>
  Running one callback of the event loop. The closure made in \<^verbatim>\<open>__cleanup\<close> reads the
  variable \<^verbatim>\<open>task\<close> of its \<^verbatim>\<open>__cleanup\<close> call now; the variable is bound whenever such a
  closure exists.
\<close>

fun run_callback :: "callback \<Rightarrow> gstate \<Rightarrow> outcome" where
  "run_callback (DependencyFinished self task) s = dependency_finished self task s"
| "run_callback (ChildFinished self task) s = child_finished self task s"
| "run_callback (DiscardVia self task) s = discard_via self task s"
| "run_callback (CheckStart self) s = check_start self s"
| "run_callback (CancelTaskVar self) s =
     (case cleanup_task_var s self of
        None \<Rightarrow> (s, None)
      | Some task \<Rightarrow> priv_cancel True task s)"

text \<open>\<^verbatim>\<open>Task.set_error_handler\<close>\<close>

definition set_error_handler :: "tid \<Rightarrow> tid option \<Rightarrow> hid \<Rightarrow> gstate \<Rightarrow> gstate" where
  "set_error_handler self task handler s =
     upd_task self (\<lambda>t. t\<lparr>error_handlers := (error_handlers t)(task := Some handler)\<rparr>) s"

text \<open>
  \<^verbatim>\<open>Task.depends_on\<close>. Assigning to a key that the dictionary has replaces its value and
  keeps its place.
\<close>

definition depends_on :: "tid \<Rightarrow> tid \<Rightarrow> gstate \<Rightarrow> outcome" where
  "depends_on self task s =
     (if state (tasks s ! self) \<notin> {Preparing, Pending} then (s, Some (Exc AssertionError None))
      else
        let s1 = upd_task self (\<lambda>t. t\<lparr>dependencies := stable_add task (dependencies t)\<rparr>) s
        in if state (tasks s1 ! task) \<in> {Preparing, Pending, Running}
           then
             let (s1', callback) = new_closure s1;
                 s2 = add_done_callback task callback (DependencyFinished self task) s1';
                 s3 = upd_task self (\<lambda>t. t\<lparr>pending_dependencies :=
                        AList.update task callback (pending_dependencies t)\<rparr>) s2
             in (upd_task task (\<lambda>t. t\<lparr>reverse_dependencies :=
                        stable_add self (reverse_dependencies t)\<rparr>) s3, None)
           else (s1, None))"

text \<open>
  The property \<^verbatim>\<open>Task.finished\<close>, awaited from outside: it awaits the gate behind
  \<^verbatim>\<open>asyncio.shield\<close> and translates a cancellation into \<^verbatim>\<open>TaskCancelled(self)\<close> and any
  other exception into \<^verbatim>\<open>TaskFailed(self)\<close> raised from it.
\<close>

datatype await_result = AwaitSuspended | AwaitReturned | AwaitRaised exc

definition await_finished :: "tid \<Rightarrow> gstate \<Rightarrow> await_result" where
  "await_finished self s =
     (case finished (tasks s ! self) of
        GPending \<Rightarrow> AwaitSuspended
      | GResult \<Rightarrow> AwaitReturned
      | GCancelled \<Rightarrow> AwaitRaised (Exc (TaskCancelled self) None)
      | GException e \<Rightarrow>
          if is_cancelled_error e then AwaitRaised (Exc (TaskCancelled self) None)
          else AwaitRaised (Exc (TaskFailed self) (Some e)))"

text \<open>
  The first statement of the body of \<^verbatim>\<open>Task.__task_main\<close>, run with \<open>self\<close> as current
  task: \<^verbatim>\<open>TaskStateChange(None, self.__state).emit()\<close>.
\<close>

definition task_main_start :: "tid \<Rightarrow> gstate \<Rightarrow> outcome" where
  "task_main_start self s = emit (StateChange self None (state (tasks s ! self))) s"

section \<open>Creating tasks, the driver of a task, and the runs of the program\<close>

text \<open>
  The attributes \<^verbatim>\<open>Task.__init__\<close> gives a new task whose parent chain is \<open>anc\<close>, and a
  program state holding the tasks \<open>ts\<close> and nothing else.
\<close>

definition new_task :: "tid list \<Rightarrow> task" where
  "new_task anc =
     \<lparr>ancestors = anc, children = [], dependencies = [], pending_dependencies = [],
      pending_children = [], reverse_dependencies = [], error_handlers = (\<lambda>_. None),
      state = Preparing, started = GPending, finished = GPending, finished_callbacks = [],
      cleaned_up = False, cancelled_by = None, discard = True, use_lease = False,
      lease = None, main_cancelled = False, aio_background_tasks = [],
      aio_wait_background_tasks = [], driver = NotStarted\<rparr>"

definition init_state :: "task list \<Rightarrow> gstate" where
  "init_state ts =
     \<lparr>tasks = ts, cursors = (\<lambda>_. []), futs = (\<lambda>_. CPending), nfut = 0, soon = [],
      ncb = 0, aio_tasks = [], aio_phase = (\<lambda>_. AioCreated),
      cleanup_task_var = (\<lambda>_. None), job_ready = True,
      lease_callbacks = [], emitted = []\<rparr>"

text \<open>\<^verbatim>\<open>Task.__add_child\<close>: \<open>self\<close> is the parent and \<open>task\<close> the new child.\<close>

definition add_child :: "tid \<Rightarrow> tid \<Rightarrow> gstate \<Rightarrow> outcome" where
  "add_child self task s =
     (if state (tasks s ! self) \<noteq> Running then (s, Some (Exc AssertionError None))
      else
        let s1 = upd_task self (\<lambda>t. t\<lparr>children := stable_add task (children t)\<rparr>) s
        in if state (tasks s1 ! task) \<in> {Preparing, Pending, Running}
           then
             let (s1', callback) = new_closure s1;
                 s2 = add_done_callback task callback (ChildFinished self task) s1'
             in (upd_task self (\<lambda>t. t\<lparr>pending_children :=
                        AList.update task callback (pending_children t)\<rparr>) s2, None)
           else (s1, None))"

text \<open>
  \<^verbatim>\<open>Task.__init__\<close> of a task other than the root, evaluated where the current task is
  \<open>current\<close>, and of \<^verbatim>\<open>RootTask\<close>. The new task gets the next index and its driver is
  created. The loop has the attribute \<^verbatim>\<open>root_task\<close> exactly when a task exists, since
  every other constructor needs a current task. A constructor that raises leaves the
  state as it was: nothing refers to the object under construction. Task names are left
  out.
\<close>

definition task_init :: "tid option \<Rightarrow> gstate \<Rightarrow> outcome" where
  "task_init current s =
     (case current_task current of
        Inl x \<Rightarrow> (s, Some x)
      | Inr p \<Rightarrow>
          if state (tasks s ! p) \<noteq> Running then (s, Some (Exc AssertionError None))
          else add_child p (length (tasks s))
                 (s\<lparr>tasks := tasks s @ [new_task (p # ancestors (tasks s ! p))]\<rparr>))"

definition root_task_init :: "gstate \<Rightarrow> outcome" where
  "root_task_init s =
     (if tasks s \<noteq> [] then (s, Some (Exc AssertionError None))
      else (s\<lparr>tasks := [new_task []]\<rparr>, None))"

text \<open>
  \<^verbatim>\<open>isinstance(exc, Exception)\<close>: of the classes here only \<^verbatim>\<open>asyncio.CancelledError\<close>
  itself derives from \<^verbatim>\<open>BaseException\<close> alone; the \<^verbatim>\<open>TaskAborted\<close> classes derive from
  \<^verbatim>\<open>Exception\<close>.
\<close>

fun is_exception :: "exc \<Rightarrow> bool" where
  "is_exception (Exc CancelledError _) = False"
| "is_exception _ = True"

text \<open>The property \<^verbatim>\<open>Task.started\<close>, which treats its gate as \<^verbatim>\<open>Task.finished\<close> does.\<close>

definition await_started :: "tid \<Rightarrow> gstate \<Rightarrow> await_result" where
  "await_started self s =
     (case started (tasks s ! self) of
        GPending \<Rightarrow> AwaitSuspended
      | GResult \<Rightarrow> AwaitReturned
      | GCancelled \<Rightarrow> AwaitRaised (Exc (TaskCancelled self) None)
      | GException e \<Rightarrow>
          if is_cancelled_error e then AwaitRaised (Exc (TaskCancelled self) None)
          else AwaitRaised (Exc (TaskFailed self) (Some e)))"

text \<open>
  The end of \<^verbatim>\<open>Task.__task_main\<close>. An exception raised inside the \<^verbatim>\<open>try\<close> block that is
  an \<^verbatim>\<open>Exception\<close> is given to \<^verbatim>\<open>__propagate_failure(self, exc)\<close>; then the \<^verbatim>\<open>finally\<close>
  block runs \<^verbatim>\<open>__cleanup\<close> and the coroutine has ended. The exception returned is the one
  that leaves the coroutine.
\<close>

definition task_main_exit :: "tid \<Rightarrow> exc option \<Rightarrow> gstate \<Rightarrow> outcome" where
  "task_main_exit self raised s =
     (let (s1, r) =
            (case raised of
               None \<Rightarrow> (s, None)
             | Some x \<Rightarrow>
                 if is_exception x then propagate_failure self self (Some x) None s
                 else (s, Some x))
      in (upd_task self (\<lambda>t. t\<lparr>driver := Ended\<rparr>) (cleanup self s1), r))"

text \<open>
  The body of \<^verbatim>\<open>Task.__task_main\<close>, cut at its \<^verbatim>\<open>await\<close> expressions, last part first.
  Awaiting a gate that is done does not suspend the coroutine, which goes on at once
  with the value of the gate; awaiting a pending gate suspends it. The hooks
  \<^verbatim>\<open>on_prepare\<close> and \<^verbatim>\<open>on_run\<close> are user code: the driver waits in them until they return
  or raise.
\<close>

definition task_main_done :: "tid \<Rightarrow> gstate \<Rightarrow> outcome" where
  "task_main_done self s =
     (case change_state self Done s of (s1, r) \<Rightarrow> task_main_exit self r s1)"

definition task_main_waiting :: "tid \<Rightarrow> gstate \<Rightarrow> outcome" where
  "task_main_waiting self s =
     (case change_state self Waiting (upd_task self (\<lambda>t. t\<lparr>lease := None\<rparr>) s) of
        (s1, Some x) \<Rightarrow> task_main_exit self (Some x) s1
      | (s1, None) \<Rightarrow>
          (case check_finish self s1 of
             (s2, Some x) \<Rightarrow> task_main_exit self (Some x) s2
           | (s2, None) \<Rightarrow>
               (case await_finished self s2 of
                  AwaitSuspended \<Rightarrow> (upd_task self (\<lambda>t. t\<lparr>driver := AwaitFinished\<rparr>) s2, None)
                | AwaitReturned \<Rightarrow> task_main_done self s2
                | AwaitRaised x \<Rightarrow> task_main_exit self (Some x) s2)))"

definition task_main_running :: "tid \<Rightarrow> gstate \<Rightarrow> outcome" where
  "task_main_running self s =
     (case change_state self Running s of
        (s1, Some x) \<Rightarrow> task_main_exit self (Some x) s1
      | (s1, None) \<Rightarrow> (upd_task self (\<lambda>t. t\<lparr>driver := InRun\<rparr>) s1, None))"

definition task_main_pending :: "tid \<Rightarrow> gstate \<Rightarrow> outcome" where
  "task_main_pending self s =
     (case change_state self Pending s of
        (s1, Some x) \<Rightarrow> task_main_exit self (Some x) s1
      | (s1, None) \<Rightarrow>
          (case check_start self s1 of
             (s2, Some x) \<Rightarrow> task_main_exit self (Some x) s2
           | (s2, None) \<Rightarrow>
               (case await_started self s2 of
                  AwaitSuspended \<Rightarrow> (upd_task self (\<lambda>t. t\<lparr>driver := AwaitStarted\<rparr>) s2, None)
                | AwaitReturned \<Rightarrow> task_main_running self s2
                | AwaitRaised x \<Rightarrow> task_main_exit self (Some x) s2)))"

definition task_main_begin :: "tid \<Rightarrow> gstate \<Rightarrow> outcome" where
  "task_main_begin self s =
     (case task_main_start self s of
        (s1, Some x) \<Rightarrow> task_main_exit self (Some x) s1
      | (s1, None) \<Rightarrow> (upd_task self (\<lambda>t. t\<lparr>driver := InPrepare\<rparr>) s1, None))"

text \<open>
  One step of the driver made by the event loop. \<open>r\<close> says how the hook the driver waits
  in has ended, and is not looked at elsewhere. A driver cancelled before its first step
  never enters its body. A driver that was suspended at a gate and whose asyncio task
  was cancelled meanwhile gets \<^verbatim>\<open>CancelledError\<close> at the \<^verbatim>\<open>await\<close> inside the property,
  which raises \<^verbatim>\<open>TaskCancelled(self)\<close>; a driver suspended at a gate that is still
  pending is not stepped.
\<close>

datatype hook_result = Returns | Raises exc

definition task_main :: "tid \<Rightarrow> hook_result \<Rightarrow> gstate \<Rightarrow> outcome" where
  "task_main self r s =
     (case driver (tasks s ! self) of
        NotStarted \<Rightarrow>
          if main_cancelled (tasks s ! self)
          then (upd_task self (\<lambda>t. t\<lparr>driver := Ended\<rparr>) s, Some (Exc CancelledError None))
          else task_main_begin self s
      | InPrepare \<Rightarrow>
          (case r of
             Returns \<Rightarrow> task_main_pending self s
           | Raises x \<Rightarrow> task_main_exit self (Some x) s)
      | AwaitStarted \<Rightarrow>
          if main_cancelled (tasks s ! self)
          then task_main_exit self (Some (Exc (TaskCancelled self) None)) s
          else
            (case await_started self s of
               AwaitSuspended \<Rightarrow> (s, None)
             | AwaitReturned \<Rightarrow> task_main_running self s
             | AwaitRaised x \<Rightarrow> task_main_exit self (Some x) s)
      | InRun \<Rightarrow>
          (case r of
             Returns \<Rightarrow> task_main_waiting self s
           | Raises x \<Rightarrow> task_main_exit self (Some x) s)
      | AwaitFinished \<Rightarrow>
          if main_cancelled (tasks s ! self)
          then task_main_exit self (Some (Exc (TaskCancelled self) None)) s
          else
            (case await_finished self s of
               AwaitSuspended \<Rightarrow> (s, None)
             | AwaitReturned \<Rightarrow> task_main_done self s
             | AwaitRaised x \<Rightarrow> task_main_exit self (Some x) s)
      | Ended \<Rightarrow> (s, None))"

text \<open>
  The coroutine \<^verbatim>\<open>wrapper\<close> of \<^verbatim>\<open>Task.background\<close>. Its first step starts the target,
  unless the asyncio task was cancelled before, in which case the body of the wrapper is
  never entered. When the target has returned or raised, the wrapper ignores a
  \<^verbatim>\<open>CancelledError\<close>, gives any other exception to \<^verbatim>\<open>__failed\<close>, and in its \<^verbatim>\<open>finally\<close>
  block takes the asyncio task out of the set it is in; for a drain task it then calls
  \<^verbatim>\<open>__check_finish\<close>.
\<close>

definition wrapper_begin :: "aid \<Rightarrow> gstate \<Rightarrow> gstate" where
  "wrapper_begin a s =
     (if aio_phase s a \<noteq> AioCreated then s
      else s\<lparr>aio_phase := (aio_phase s)
               (a := if aio_cancelled (aio_tasks s ! a) then AioEnded else AioRunning)\<rparr>)"

definition wrapper_end :: "aid \<Rightarrow> hook_result \<Rightarrow> gstate \<Rightarrow> outcome" where
  "wrapper_end a r s =
     (if aio_phase s a \<noteq> AioRunning then (s, None)
      else
        let self = owner (aio_tasks s ! a);
            (s1, x1) =
              (case r of
                 Returns \<Rightarrow> (s, None)
               | Raises e \<Rightarrow> if is_cancelled_error e then (s, None) else failed self (Some e) s);
            s2 = s1\<lparr>aio_phase := (aio_phase s1)(a := AioEnded)\<rparr>
        in if wait (aio_tasks s2 ! a)
           then
             (case check_finish self
                     (upd_task self (\<lambda>t. t\<lparr>aio_wait_background_tasks :=
                        stable_remove a (aio_wait_background_tasks t)\<rparr>) s2) of
                (s3, Some x) \<Rightarrow> (s3, Some x)
              | (s3, None) \<Rightarrow> (s3, x1))
           else (upd_task self (\<lambda>t. t\<lparr>aio_background_tasks :=
                        stable_remove a (aio_background_tasks t)\<rparr>) s2, x1))"

text \<open>
  What happens in a run of the program, one action at a time: the task loop makes the
  root task; user code with current task \<open>p\<close> makes a task; the event loop steps a driver
  or a wrapper, or calls the first callback of its queue; user code calls a method of the
  interface (\<^verbatim>\<open>cancel\<close>, \<^verbatim>\<open>depends_on\<close>, \<^verbatim>\<open>set_error_handler\<close>, \<^verbatim>\<open>background\<close>,
  \<^verbatim>\<open>emit\<close>, \<^verbatim>\<open>events\<close>). An action names tasks and asyncio tasks that exist. An
  exception goes to the caller, and the state the call has left stays.
\<close>

datatype action =
    NewRoot
  | NewTask tid
  | Resume tid hook_result
  | RunSoon
  | CallCancel "tid option" tid
  | CallDependsOn tid tid
  | CallSetErrorHandler tid "tid option" hid
  | CallBackground tid target bool bool
  | CallEmit event
  | CallEvents tid etype
  | WrapperBegin aid
  | WrapperEnd aid hook_result

fun exists_opt :: "gstate \<Rightarrow> tid option \<Rightarrow> bool" where
  "exists_opt s None = True"
| "exists_opt s (Some t) = (t < length (tasks s))"

fun step :: "action \<Rightarrow> gstate \<Rightarrow> outcome" where
  "step NewRoot s = root_task_init s"
| "step (NewTask p) s = (if p < length (tasks s) then task_init (Some p) s else (s, None))"
| "step (Resume t r) s = (if t < length (tasks s) then task_main t r s else (s, None))"
| "step RunSoon s =
     (case soon s of [] \<Rightarrow> (s, None) | cb # rest \<Rightarrow> run_callback cb (s\<lparr>soon := rest\<rparr>))"
| "step (CallCancel c t) s =
     (if exists_opt s c \<and> t < length (tasks s) then cancel c t s else (s, None))"
| "step (CallDependsOn t u) s =
     (if t < length (tasks s) \<and> u < length (tasks s) then depends_on t u s else (s, None))"
| "step (CallSetErrorHandler t k h) s =
     (if t < length (tasks s) \<and> exists_opt s k then (set_error_handler t k h s, None)
      else (s, None))"
| "step (CallBackground t tgt w eh) s =
     (if t < length (tasks s) then background t tgt w eh s else (s, None))"
| "step (CallEmit ev) s = (if source ev < length (tasks s) then emit ev s else (s, None))"
| "step (CallEvents t ty) s =
     (if t < length (tasks s) then (fst (events t ty s), None) else (s, None))"
| "step (WrapperBegin a) s =
     (if a < length (aio_tasks s) then (wrapper_begin a s, None) else (s, None))"
| "step (WrapperEnd a r) s =
     (if a < length (aio_tasks s) then wrapper_end a r s else (s, None))"

text \<open>The state after a run, and the states the program can reach from its start.\<close>

fun exec :: "action list \<Rightarrow> gstate \<Rightarrow> gstate" where
  "exec [] s = s"
| "exec (a # as) s = exec as (fst (step a s))"

definition run :: "action list \<Rightarrow> gstate" where
  "run as = exec as (init_state [])"

section \<open>The context-variable store (\<^verbatim>\<open>yosys_mau/task_loop/context.py\<close>)\<close>

text \<open>
  A \<^verbatim>\<open>TaskContextDescriptor\<close>: the values stored per task and the default, which is
  unset until assigned.
\<close>

record 'v descriptor =
  data :: "tid \<Rightarrow> 'v option"
  default_value :: "'v option"

text \<open>
  The loop of \<^verbatim>\<open>TaskContextDescriptor.__get__\<close> over the cursor and its parents:
  return \<^verbatim>\<open>self.__data[cursor]\<close>, or on \<^verbatim>\<open>KeyError\<close> go to \<^verbatim>\<open>cursor.parent\<close>.
\<close>

fun lookup_chain :: "(tid \<Rightarrow> 'v option) \<Rightarrow> tid list \<Rightarrow> 'v option" where
  "lookup_chain d [] = None"
| "lookup_chain d (cursor # rest) =
     (case d cursor of Some v \<Rightarrow> Some v | None \<Rightarrow> lookup_chain d rest)"

text \<open>The tasks the loop visits: the current task, then its parents up to the root.\<close>

definition task_chain :: "task list \<Rightarrow> tid option \<Rightarrow> tid list" where
  "task_chain ts current =
     (case current of None \<Rightarrow> [] | Some t \<Rightarrow> t # ancestors (ts ! t))"

text \<open>\<^verbatim>\<open>TaskContextDescriptor.__get__\<close>, where \<open>current\<close> is \<^verbatim>\<open>current_task_or_none()\<close>.\<close>

definition descriptor_get :: "'v descriptor \<Rightarrow> task list \<Rightarrow> tid option \<Rightarrow> exc + 'v" where
  "descriptor_get var ts current =
     (case lookup_chain (data var) (task_chain ts current) of
        Some v \<Rightarrow> Inr v
      | None \<Rightarrow>
          (case default_value var of
             Some v \<Rightarrow> Inr v
           | None \<Rightarrow> Inl (Exc AttributeError None)))"

text \<open>\<^verbatim>\<open>TaskContextDescriptor.__set__\<close>\<close>

definition descriptor_set :: "'v descriptor \<Rightarrow> tid option \<Rightarrow> 'v \<Rightarrow> 'v descriptor" where
  "descriptor_set var current v =
     (case current of
        None \<Rightarrow> var\<lparr>default_value := Some v\<rparr>
      | Some task \<Rightarrow> var\<lparr>data := (data var)(task := Some v)\<rparr>)"

text \<open>
  The read semantics in the words of the specification: the nearest task of the chain
  that has an override decides; without one the default does; without a default the read
  fails.
\<close>

definition nearest_override :: "'v descriptor \<Rightarrow> tid list \<Rightarrow> tid option" where
  "nearest_override var chain = find (\<lambda>a. data var a \<noteq> None) chain"

definition spec_read :: "'v descriptor \<Rightarrow> tid list \<Rightarrow> exc + 'v" where
  "spec_read var chain =
     (case nearest_override var chain of
        Some a \<Rightarrow> Inr (the (data var a))
      | None \<Rightarrow>
          (case default_value var of
             Some v \<Rightarrow> Inr v
           | None \<Rightarrow> Inl (Exc AttributeError None)))"

section \<open>Notions used in the statements\<close>

text \<open>The state \<^verbatim>\<open>"discarded" if discard else "cancelled"\<close>.\<close>

definition flavour :: "bool \<Rightarrow> task_state" where
  "flavour discard_flag = (if discard_flag then Discarded else Cancelled)"

text \<open>
  A task before and after a run of \<^verbatim>\<open>__cancel\<close> or \<^verbatim>\<open>__failed\<close>: it is unchanged, or it was
  not terminal and has reached a state of \<open>F\<close>, with both gates done and no gate that was
  done assigned again. \<open>evolves\<close> says so of every task of a state.
\<close>

definition task_evolves :: "task_state set \<Rightarrow> task \<Rightarrow> task \<Rightarrow> bool" where
  "task_evolves F t t' \<longleftrightarrow>
     t' = t \<or>
     (\<not> is_finished t \<and> state t' \<in> F \<and> children t' = children t \<and> ancestors t' = ancestors t
      \<and> cancelled_by t' = cancelled_by t
      \<and> gate_done (started t') \<and> gate_done (finished t')
      \<and> (gate_done (started t) \<longrightarrow> started t' = started t)
      \<and> (gate_done (finished t) \<longrightarrow> finished t' = finished t))"

definition evolves :: "task_state set \<Rightarrow> gstate \<Rightarrow> gstate \<Rightarrow> bool" where
  "evolves F s s' \<longleftrightarrow>
     length (tasks s') = length (tasks s)
     \<and> (\<forall>u < length (tasks s). task_evolves F (tasks s ! u) (tasks s' ! u))"

text \<open>
  Between a state and a later one, every task that became terminal has only terminal
  children.
\<close>

definition closed_marks :: "gstate \<Rightarrow> gstate \<Rightarrow> bool" where
  "closed_marks s s' \<longleftrightarrow>
     (\<forall>u < length (tasks s). \<not> is_finished (tasks s ! u) \<and> is_finished (tasks s' ! u) \<longrightarrow>
        (\<forall>c \<in> set (children (tasks s ! u)). c < length (tasks s) \<longrightarrow> is_finished (tasks s' ! c)))"

text \<open>
  A chain of live descendants of a task \<open>t\<close>: the first task of the list is a child of
  \<open>t\<close>, every later one a child of the task before it, and none of them is terminal. The
  live descendants of \<open>t\<close> are the tasks on such chains.
\<close>

fun live_path :: "gstate \<Rightarrow> tid \<Rightarrow> tid list \<Rightarrow> bool" where
  "live_path s t [] = True"
| "live_path s t (c # cs) =
     (c \<in> set (children (tasks s ! t)) \<and> c < length (tasks s)
      \<and> \<not> is_finished (tasks s ! c) \<and> live_path s c cs)"

text \<open>The handler the propagator picks: the one keyed by the source, else the wildcard.\<close>

definition matching_handler :: "task \<Rightarrow> tid \<Rightarrow> hid option" where
  "matching_handler t task =
     (case error_handlers t (Some task) of
        Some h \<Rightarrow> Some h
      | None \<Rightarrow> error_handlers t None)"




text \<open>
  The cursors of a well-formed state: every cursor of a dictionary is an allocated future,
  and no future is the cursor of two entries (every cursor is created by its own call of
  \<^verbatim>\<open>asyncio.Future()\<close>).
\<close>

definition wf_cursors :: "gstate \<Rightarrow> bool" where
  "wf_cursors s \<longleftrightarrow>
     (\<forall>a ty c. map_of (cursors s a) ty = Some c \<longrightarrow> c < nfut s)
     \<and> (\<forall>a ty a' ty' c. map_of (cursors s a) ty = Some c \<and> map_of (cursors s a') ty' = Some c
          \<longrightarrow> a = a' \<and> ty = ty')"

text \<open>
  What an emission of \<open>ev\<close> that has processed exactly the dictionary entries \<open>K\<close> (pairs
  of task and event type) has done between \<open>s\<close> and \<open>s'\<close>.
\<close>

definition delivered :: "event \<Rightarrow> (tid \<times> etype) set \<Rightarrow> gstate \<Rightarrow> gstate \<Rightarrow> bool" where
  "delivered ev K s s' \<longleftrightarrow>
     wf_cursors s' \<and> nfut s \<le> nfut s'
     \<and> (\<forall>g < nfut s. futs s g \<noteq> CPending \<longrightarrow> futs s' g = futs s g)
     \<and> (\<forall>a ty. (a, ty) \<notin> K \<longrightarrow>
          map_of (cursors s' a) ty = map_of (cursors s a) ty
          \<and> (\<forall>f. map_of (cursors s a) ty = Some f \<longrightarrow> futs s' f = futs s f))
     \<and> (\<forall>a ty f. (a, ty) \<in> K \<and> map_of (cursors s a) ty = Some f \<longrightarrow>
          (\<exists>f1. futs s' f = CResult ev f1 \<and> map_of (cursors s' a) ty = Some f1
                \<and> futs s' f1 = CPending \<and> nfut s \<le> f1))"

text \<open>
  A run that emits the events \<open>es\<close> one after the other, each by \<^verbatim>\<open>event.emit()\<close>, up to
  the first emission that raises.
\<close>

fun emit_all :: "event list \<Rightarrow> gstate \<Rightarrow> outcome" where
  "emit_all [] s = (s, None)"
| "emit_all (e # es) s =
     (case emit e s of
        (s1, Some x) \<Rightarrow> (s1, Some x)
      | (s1, None) \<Rightarrow> emit_all es s1)"

text \<open>
  An event passes the cursor for type \<open>ty\<close> of task \<open>a\<close> when \<open>a\<close> is its source or an
  ancestor of its source and \<open>ty\<close> is its class or a superclass.
\<close>

definition passes :: "task list \<Rightarrow> tid \<Rightarrow> etype \<Rightarrow> event \<Rightarrow> bool" where
  "passes ts a ty e \<longleftrightarrow> a \<in> set (source e # ancestors (ts ! source e)) \<and> ty \<in> set (mro e)"

text \<open>
  The futures from \<open>c\<close> on are resolved with exactly the events \<open>es\<close>, in that order, and
  lead to \<open>c'\<close>; all of them are allocated (below \<open>k\<close>).
\<close>

fun linked :: "(fid \<Rightarrow> cfut) \<Rightarrow> nat \<Rightarrow> fid \<Rightarrow> event list \<Rightarrow> fid \<Rightarrow> bool" where
  "linked h k c [] c' = (c = c')"
| "linked h k c (e # es) c' =
     (c < k \<and> (case h c of CResult e' n \<Rightarrow> e' = e \<and> linked h k n es c' | _ \<Rightarrow> False))"

text \<open>What a subscriber that took the cursor \<open>f0\<close> of \<open>(a, ty)\<close> finds after the events \<open>obs\<close>.\<close>

definition subscribed :: "tid \<Rightarrow> etype \<Rightarrow> fid \<Rightarrow> event list \<Rightarrow> gstate \<Rightarrow> fid \<Rightarrow> bool" where
  "subscribed a ty f0 obs s f \<longleftrightarrow>
     wf_cursors s \<and> linked (futs s) (nfut s) f0 obs f
     \<and> map_of (cursors s a) ty = Some f \<and> futs s f = CPending"

section \<open>Sample states\<close>

text \<open>
  A running root (task 0) with one child (task 1). The transition of the root from
  \<^verbatim>\<open>running\<close> to \<^verbatim>\<open>waiting\<close>, which is not its first, emits no event, while the start of
  its driver does emit one.
\<close>

definition c6_state :: gstate where
  "c6_state = init_state [(new_task [])\<lparr>state := Running\<rparr>, new_task [0]]"

text \<open>
  A running root (task 0), its running child (task 1) and a running grandchild (task 2).
  The root cancels task 1: the grandchild, a live descendant of task 1, ends
  \<^verbatim>\<open>cancelled\<close>, not \<^verbatim>\<open>discarded\<close>.
\<close>

definition c2_state :: gstate where
  "c2_state = init_state
     [(new_task [])\<lparr>state := Running, started := GResult, children := [1]\<rparr>,
      (new_task [0])\<lparr>state := Running, started := GResult, children := [2]\<rparr>,
      (new_task [1, 0])\<lparr>state := Running, started := GResult\<rparr>]"

text \<open>
  A running root (task 0) has cancelled its child (task 1). The \<^verbatim>\<open>__cancelled_by\<close> of
  the root is not the child, and yet the discard of the root via the child does nothing:
  the root stays \<^verbatim>\<open>running\<close>.
\<close>

definition c5_state :: gstate where
  "c5_state = fst (cancel (Some 0) 1 (init_state
     [(new_task [])\<lparr>state := Running, started := GResult, children := [1]\<rparr>,
      new_task [0]]))"

text \<open>
  Four tasks: task 0 depends on tasks 2 and 3, task 1 depends on task 3. The cleanup of
  task 0 then runs (as it does when task 0 ends).
\<close>

definition c7_tasks :: gstate where
  "c7_tasks = init_state [new_task [], new_task [], new_task [], new_task []]"

definition c7_deps :: gstate where
  "c7_deps = fst (depends_on 1 3 (fst (depends_on 0 3 (fst (depends_on 0 2 c7_tasks)))))"

definition c7_state :: gstate where
  "c7_state = cleanup 0 c7_deps"

text \<open>
  A running root (task 0); its running child (task 1) with a handler keyed by its own
  child (task 2) and a wildcard handler. In \<open>c3_state\<close> the root has cancelled task 1,
  which cancelled task 2 with it. The propagator then routes the cancellation of task 2
  to task 1: the keyed handler is scheduled, but not as a drain handle.
\<close>

definition c3_init :: gstate where
  "c3_init = init_state
     [(new_task [])\<lparr>state := Running, started := GResult, children := [1]\<rparr>,
      (new_task [0])\<lparr>state := Running, started := GResult, children := [2],
         pending_children := [(2, 0)], error_handlers := (\<lambda>_. None)(Some 2 := Some 7, None := Some 8)\<rparr>,
      (new_task [1, 0])\<lparr>state := Running, started := GResult\<rparr>]"

definition c3_state :: gstate where
  "c3_state = fst (cancel (Some 0) 1 c3_init)"





text \<open>
  A running root (task 0) and its running child (task 1). A subscriber takes the cursor
  of the root for \<^verbatim>\<open>TaskEvent\<close>; the child emits two user events with payloads 1 and 2.
  Without a filter the subscriber is handed both in order; with the filter "payload
  above 1" and after the cleanup of the root it is handed the second and the stream ends.
\<close>

definition c9_tasks :: gstate where
  "c9_tasks = init_state
     [(new_task [])\<lparr>state := Running, started := GResult, children := [1]\<rparr>,
      (new_task [0])\<lparr>state := Running, started := GResult\<rparr>]"

definition c9_s :: gstate where
  "c9_s = fst (events 0 TaskEventT c9_tasks)"

definition c9_e1 :: event where
  "c9_e1 = UserEvent 1 [UserT 0, TaskEventT, ObjectT] 1"

definition c9_e2 :: event where
  "c9_e2 = UserEvent 1 [UserT 0, TaskEventT, ObjectT] 2"

definition c9_s2 :: gstate where
  "c9_s2 = fst (emit_all [c9_e1, c9_e2] c9_s)"

definition c9_where :: "event \<Rightarrow> bool" where
  "c9_where e = (case e of UserEvent _ _ x \<Rightarrow> 1 < x | _ \<Rightarrow> False)"

section \<open>Context variables\<close>

lemma lookup_chain_find:
  "lookup_chain d chain = (case find (\<lambda>a. d a \<noteq> None) chain of Some a \<Rightarrow> d a | None \<Rightarrow> None)"
  by (induction chain) (auto split: option.splits)

text \<open>
  C8. Reading a context variable returns the override of the nearest task of the chain
  (the current task, then its ancestors) that has one, else the default, else fails with
  \<^verbatim>\<open>AttributeError\<close> ("not set"). Writing without a current task sets the default and
  leaves the overrides alone; writing with a current task sets the override of that task
  and leaves the other overrides and the default alone.
\<close>

theorem context_read_write:
  "descriptor_get var ts current = spec_read var (task_chain ts current)
   \<and> default_value (descriptor_set var None v) = Some v
   \<and> data (descriptor_set var None v) = data var
   \<and> data (descriptor_set var (Some t) v) = (data var)(t := Some v)
   \<and> default_value (descriptor_set var (Some t) v) = default_value var"
proof -
  have "descriptor_get var ts current = spec_read var (task_chain ts current)"
    unfolding descriptor_get_def spec_read_def nearest_override_def
    by (auto simp: lookup_chain_find split: option.splits dest: find_Some_iff[THEN iffD1])
  then show ?thesis by (simp add: descriptor_set_def)
qed

text \<open>
  An instance: the root (task 0) overrides the variable with 7, its child (task 1) does
  not, the default is 3. Read from the child the value is 7, read without a current task
  it is 3.
\<close>

theorem context_read_write_witness:
  "descriptor_get \<lparr>data = (\<lambda>_. None)(0 := Some (7::nat)), default_value = Some 3\<rparr>
      [new_task [], new_task [0]] (Some 1) = Inr 7
   \<and> spec_read \<lparr>data = (\<lambda>_. None)(0 := Some (7::nat)), default_value = Some 3\<rparr>
        (task_chain [new_task [], new_task [0]] None) = Inr 3"
proof -
  let ?var = "\<lparr>data = (\<lambda>_. None)(0 := Some (7::nat)), default_value = Some 3\<rparr>"
  let ?ts = "[new_task [], new_task [0]]"
  have "spec_read ?var (task_chain ?ts (Some 1)) = Inr 7"
    by (simp add: spec_read_def nearest_override_def task_chain_def new_task_def)
  moreover have "spec_read ?var (task_chain ?ts None) = Inr 3"
    by (simp add: spec_read_def nearest_override_def task_chain_def)
  ultimately show ?thesis
    using context_read_write [of ?var ?ts "Some 1"] by simp
qed

section \<open>Cancelling without a current task\<close>

text \<open>
  C10. \<^verbatim>\<open>T.cancel()\<close> called while no task is current raises \<^verbatim>\<open>TaskLoopError\<close> and leaves
  the whole program state as it was: \<^verbatim>\<open>current_task()\<close> raises before \<^verbatim>\<open>__cancelled_by\<close>
  is assigned and before \<^verbatim>\<open>__cancel\<close> is called.
\<close>

theorem cancel_without_current_task:
  "cancel None self s = (s, Some (Exc TaskLoopError None))"
  by (simp add: cancel_def current_task_def)

text \<open>
  At a state with one new task: the call raises and the task is still \<^verbatim>\<open>preparing\<close>.
\<close>

theorem cancel_without_current_task_witness:
  "snd (cancel None 0 (init_state [new_task []])) = Some (Exc TaskLoopError None)
   \<and> state (tasks (fst (cancel None 0 (init_state [new_task []]))) ! 0) = Preparing"
  using cancel_without_current_task [of 0 "init_state [new_task []]"]
  by (simp add: init_state_def new_task_def)

section \<open>State changes and the events they emit\<close>

lemma deliver_mro_frame:
  "emitted (fst (deliver_mro ev cur ms s)) = emitted s
   \<and> soon (fst (deliver_mro ev cur ms s)) = soon s
   \<and> aio_tasks (fst (deliver_mro ev cur ms s)) = aio_tasks s
   \<and> cleanup_task_var (fst (deliver_mro ev cur ms s)) = cleanup_task_var s"
  by (induction ev cur ms s rule: deliver_mro.induct) (auto simp: Let_def split: option.splits)

lemma emit_walk_frame:
  "emitted (fst (emit_walk ev chain s)) = emitted s
   \<and> soon (fst (emit_walk ev chain s)) = soon s
   \<and> aio_tasks (fst (emit_walk ev chain s)) = aio_tasks s
   \<and> cleanup_task_var (fst (emit_walk ev chain s)) = cleanup_task_var s"
proof (induction chain arbitrary: s)
  case Nil
  then show ?case by simp
next
  case (Cons c chain)
  show ?case
  proof (cases "deliver_mro ev c (mro ev) s")
    case (Pair s1 r)
    then have "emitted s1 = emitted s \<and> soon s1 = soon s \<and> aio_tasks s1 = aio_tasks s
        \<and> cleanup_task_var s1 = cleanup_task_var s"
      using deliver_mro_frame[of ev c "mro ev" s] by simp
    then show ?thesis using Pair Cons by (cases r) auto
  qed
qed

lemma emit_frame:
  "emitted (fst (emit ev s)) = emitted s @ [ev]
   \<and> soon (fst (emit ev s)) = soon s
   \<and> aio_tasks (fst (emit ev s)) = aio_tasks s
   \<and> cleanup_task_var (fst (emit ev s)) = cleanup_task_var s"
  by (simp add: emit_def emit_event_def emit_walk_frame del: emit_walk.simps)

lemma parent_upd_state [simp]: "parent (t\<lparr>state := x\<rparr>) = parent t"
  by (simp add: parent_def)

text \<open>
  C6, as the code has it. \<^verbatim>\<open>__change_state\<close> to the state the task is in does nothing.
  \<^verbatim>\<open>__change_state\<close> to another state sets the state and, on a task that has a parent,
  emits exactly the event \<^verbatim>\<open>TaskStateChange(previous, new)\<close> with the task as source; on a
  task without a parent (the root) it emits no event, whichever transition it is. The
  driver \<^verbatim>\<open>__task_main\<close> of every task, the root included, first emits
  \<^verbatim>\<open>TaskStateChange(None, state)\<close>.
\<close>

theorem change_state_events:
  assumes "self < length (tasks s)"
  shows "(state (tasks s ! self) = new_state \<longrightarrow> change_state self new_state s = (s, None))
   \<and> (state (tasks s ! self) \<noteq> new_state \<and> parent (tasks s ! self) \<noteq> None \<longrightarrow>
        state (tasks (fst (change_state self new_state s)) ! self) = new_state
        \<and> emitted (fst (change_state self new_state s)) =
            emitted s @ [StateChange self (Some (state (tasks s ! self))) new_state])
   \<and> (state (tasks s ! self) \<noteq> new_state \<and> parent (tasks s ! self) = None \<longrightarrow>
        state (tasks (fst (change_state self new_state s)) ! self) = new_state
        \<and> emitted (fst (change_state self new_state s)) = emitted s)
   \<and> emitted (fst (task_main_start self s)) =
        emitted s @ [StateChange self None (state (tasks s ! self))]"
proof -
  have st: "state (tasks (fst (change_state self new_state s)) ! self) = new_state"
    using assms by (simp add: tasks_change_state)
  have e1: "state (tasks s ! self) \<noteq> new_state \<Longrightarrow> parent (tasks s ! self) \<noteq> None \<Longrightarrow>
      emitted (fst (change_state self new_state s)) =
            emitted s @ [StateChange self (Some (state (tasks s ! self))) new_state]"
    using assms by (simp add: change_state_def Let_def emit_frame nth_upd_task upd_task_def)
  have e2: "state (tasks s ! self) \<noteq> new_state \<Longrightarrow> parent (tasks s ! self) = None \<Longrightarrow>
      emitted (fst (change_state self new_state s)) = emitted s"
    using assms by (simp add: change_state_def Let_def nth_upd_task upd_task_def)
  have e3: "emitted (fst (task_main_start self s)) =
        emitted s @ [StateChange self None (state (tasks s ! self))]"
    by (simp add: task_main_start_def emit_frame)
  have e0: "state (tasks s ! self) = new_state \<Longrightarrow> change_state self new_state s = (s, None)"
    by (simp add: change_state_def)
  show ?thesis using st e0 e1 e2 e3 by blast
qed

text \<open>
  The claim as stated fails in \<open>c6_state\<close>: the root goes from \<^verbatim>\<open>running\<close> to \<^verbatim>\<open>waiting\<close>,
  which is not its first transition, and no event is emitted; the start of its driver
  does emit one.
\<close>

theorem root_transition_counterexample:
  "state (tasks c6_state ! 0) = Running
   \<and> state (tasks (fst (change_state 0 Waiting c6_state)) ! 0) = Waiting
   \<and> emitted (fst (change_state 0 Waiting c6_state)) = emitted c6_state
   \<and> emitted (fst (task_main_start 0 c6_state)) = [StateChange 0 None Running]"
  by (simp add: c6_state_def init_state_def new_task_def change_state_def Let_def upd_task_def
       parent_def task_main_start_def emit_def emit_event_def)

text \<open>
  In \<open>c6_state\<close> the child (task 1) emits the event of its transition, the root (task 0)
  emits none, and a change to the state a task is in does nothing.
\<close>

theorem change_state_events_witness:
  "state (tasks (fst (change_state 1 Pending c6_state)) ! 1) = Pending
   \<and> emitted (fst (change_state 1 Pending c6_state)) = [StateChange 1 (Some Preparing) Pending]
   \<and> emitted (fst (change_state 0 Waiting c6_state)) = []
   \<and> change_state 1 Preparing c6_state = (c6_state, None)"
proof -
  have a: "(1::nat) < length (tasks c6_state)" "(0::nat) < length (tasks c6_state)"
    by (simp_all add: c6_state_def init_state_def)
  have b: "state (tasks c6_state ! 1) = Preparing" "parent (tasks c6_state ! 1) \<noteq> None"
     "state (tasks c6_state ! 0) = Running" "parent (tasks c6_state ! 0) = None" "emitted c6_state = []"
    by (simp_all add: c6_state_def init_state_def new_task_def parent_def)
  show ?thesis
    using change_state_events [OF a(1), of Pending] change_state_events [OF a(2), of Waiting]
      change_state_events [OF a(1), of Preparing] b
    by simp
qed

section \<open>Cancellation: what \<^verbatim>\<open>__cancel\<close> changes\<close>

lemma evolves_refl: "evolves F s s"
  by (simp add: evolves_def task_evolves_def)

lemma task_evolves_trans:
  assumes "F \<subseteq> {Done, Cancelled, Discarded, Failed}" "task_evolves F a b" "task_evolves F b c"
  shows "task_evolves F a c"
proof (cases "b = a \<or> c = b")
  case True
  then show ?thesis using assms by auto
next
  case False
  then have "is_finished b" "\<not> is_finished b"
    using assms unfolding task_evolves_def is_finished_def by auto
  then show ?thesis by simp
qed

lemma evolves_trans:
  assumes "F \<subseteq> {Done, Cancelled, Discarded, Failed}" "evolves F s s1" "evolves F s1 s2"
  shows "evolves F s s2"
  using assms unfolding evolves_def by (auto intro: task_evolves_trans)


lemma nth_tasks_change_state:
  "tasks (fst (change_state self new s)) ! u =
     (if u = self \<and> self < length (tasks s) then (tasks s ! self)\<lparr>state := new\<rparr> else tasks s ! u)"
  by (cases "self < length (tasks s)") (auto simp: tasks_change_state list_update_beyond)

lemma length_tasks_change_state [simp]:
  "length (tasks (fst (change_state self new s))) = length (tasks s)"
  by (simp add: tasks_change_state)

lemma cancel_gates_other: "u \<noteq> self \<Longrightarrow> tasks (cancel_gates self s) ! u = tasks s ! u"
  by (simp add: cancel_gates_def Let_def nth_upd_task nth_resolve_finished)

lemma cancel_gates_self:
  assumes "self < length (tasks s)"
  shows "children (tasks (cancel_gates self s) ! self) = children (tasks s ! self)"
    "ancestors (tasks (cancel_gates self s) ! self) = ancestors (tasks s ! self)"
    "cancelled_by (tasks (cancel_gates self s) ! self) = cancelled_by (tasks s ! self)"
    "gate_done (started (tasks (cancel_gates self s) ! self))"
    "gate_done (finished (tasks (cancel_gates self s) ! self))"
    "gate_done (started (tasks s ! self)) \<Longrightarrow>
       started (tasks (cancel_gates self s) ! self) = started (tasks s ! self)"
    "gate_done (finished (tasks s ! self)) \<Longrightarrow>
       finished (tasks (cancel_gates self s) ! self) = finished (tasks s ! self)"
  using assms
  by (auto simp: cancel_gates_def Let_def nth_upd_task nth_resolve_finished gate_done_def)

lemma mark_evolves:
  assumes "self < length (tasks s)" "\<not> is_finished (tasks s ! self)" "new \<in> F"
  shows "evolves F s (fst (change_state self new (cancel_gates self s)))"
  unfolding evolves_def
proof (intro conjI allI impI)
  show "length (tasks (fst (change_state self new (cancel_gates self s)))) = length (tasks s)"
    by simp
next
  fix u assume "u < length (tasks s)"
  show "task_evolves F (tasks s ! u) (tasks (fst (change_state self new (cancel_gates self s))) ! u)"
  proof (cases "u = self")
    case True
    then show ?thesis
      using assms cancel_gates_self[OF assms(1)]
      by (simp add: task_evolves_def nth_tasks_change_state)
  next
    case False
    then show ?thesis
      by (simp add: task_evolves_def nth_tasks_change_state cancel_gates_other)
  qed
qed

lemma flavour_terminal: "{flavour d} \<subseteq> {Done, Cancelled, Discarded, Failed}"
  by (simp add: flavour_def)

lemma priv_cancel_evolves:
  "evolves {flavour d} s (fst (priv_cancel d self s))"
  "evolves {flavour d} s (fst (priv_cancel_children d cs s))"
proof (induction d self s and d cs s rule: priv_cancel_priv_cancel_children.induct)
  case (1 d self s)
  show ?case
  proof (cases "length (tasks s) \<le> self \<or> is_finished (tasks s ! self)")
    case True
    then show ?thesis by (simp add: evolves_refl)
  next
    case False
    obtain s1 r where cs: "change_state self (if d then Discarded else Cancelled) (cancel_gates self s) = (s1, r)"
      by force
    have m: "evolves {flavour d} s s1"
      using mark_evolves[of self s "flavour d" "{flavour d}"] False cs by (simp add: flavour_def)
    show ?thesis
    proof (cases r)
      case None
      have "evolves {flavour d} s1 (fst (priv_cancel_children d (children (tasks s1 ! self)) s1))"
        using 1[OF False cs[symmetric] None] .
      then show ?thesis using m False cs None evolves_trans[OF flavour_terminal] by simp
    next
      case (Some x)
      then show ?thesis using m False cs by simp
    qed
  qed
next
  case (2 d s)
  then show ?case by (simp add: evolves_refl)
next
  case (3 d child rest s)
  obtain s1 r where pc: "priv_cancel d child s = (s1, r)" by force
  have m: "evolves {flavour d} s s1" using 3(1) pc by simp
  show ?case
  proof (cases r)
    case None
    have "evolves {flavour d} s1 (fst (priv_cancel_children d rest s1))"
      using 3(2)[OF pc[symmetric] None] .
    then show ?thesis using m pc None evolves_trans[OF flavour_terminal] by simp
  next
    case (Some x)
    then show ?thesis using m pc by simp
  qed
qed

lemma evolves_length: "evolves F s s' \<Longrightarrow> length (tasks s') = length (tasks s)"
  by (simp add: evolves_def)

lemma evolves_finished_same:
  "evolves F s s' \<Longrightarrow> u < length (tasks s) \<Longrightarrow> is_finished (tasks s ! u) \<Longrightarrow> tasks s' ! u = tasks s ! u"
  unfolding evolves_def task_evolves_def by blast

lemma evolves_children:
  "evolves F s s' \<Longrightarrow> u < length (tasks s) \<Longrightarrow> children (tasks s' ! u) = children (tasks s ! u)"
  unfolding evolves_def task_evolves_def by metis

lemma evolves_changed_state:
  "evolves F s s' \<Longrightarrow> u < length (tasks s) \<Longrightarrow> \<not> is_finished (tasks s ! u) \<Longrightarrow>
     is_finished (tasks s' ! u) \<Longrightarrow> state (tasks s' ! u) \<in> F"
  unfolding evolves_def task_evolves_def by metis

lemma priv_cancel_self_state:
  assumes "self < length (tasks s)" "\<not> is_finished (tasks s ! self)"
  shows "state (tasks (fst (priv_cancel d self s)) ! self) = flavour d"
proof -
  obtain s1 r where cs: "change_state self (if d then Discarded else Cancelled) (cancel_gates self s) = (s1, r)"
    by force
  have st: "state (tasks s1 ! self) = flavour d"
    using nth_tasks_change_state[of self "if d then Discarded else Cancelled" "cancel_gates self s" self]
      cs assms(1) by (simp add: flavour_def)
  have len: "length (tasks s1) = length (tasks s)"
    using length_tasks_change_state[of self "if d then Discarded else Cancelled" "cancel_gates self s"] cs
    by simp
  show ?thesis
  proof (cases r)
    case (Some x)
    then show ?thesis using assms cs st by simp
  next
    case None
    have fin: "is_finished (tasks s1 ! self)" using st by (simp add: is_finished_def flavour_def)
    have "tasks (fst (priv_cancel_children d (children (tasks s1 ! self)) s1)) ! self = tasks s1 ! self"
      using evolves_finished_same[OF priv_cancel_evolves(2) _ fin] assms(1) len by simp
    then show ?thesis using assms cs st None by simp
  qed
qed

lemma closed_marksD:
  assumes "closed_marks s s'" "u < length (tasks s)" "\<not> is_finished (tasks s ! u)"
    "is_finished (tasks s' ! u)" "c \<in> set (children (tasks s ! u))" "c < length (tasks s)"
  shows "is_finished (tasks s' ! c)"
proof -
  have "\<forall>c \<in> set (children (tasks s ! u)). c < length (tasks s) \<longrightarrow> is_finished (tasks s' ! c)"
    using assms(1)[unfolded closed_marks_def, rule_format, of u] assms(2,3,4) by blast
  then show ?thesis using assms(5,6) by blast
qed

lemma closed_marksI:
  assumes "\<And>u c. u < length (tasks s) \<Longrightarrow> \<not> is_finished (tasks s ! u) \<Longrightarrow>
     is_finished (tasks s' ! u) \<Longrightarrow> c \<in> set (children (tasks s ! u)) \<Longrightarrow> c < length (tasks s) \<Longrightarrow>
     is_finished (tasks s' ! c)"
  shows "closed_marks s s'"
  unfolding closed_marks_def using assms by blast

lemma closed_marks_refl: "closed_marks s s"
  by (rule closed_marksI) simp

lemma closed_marks_trans:
  assumes "evolves F s s1" "evolves F s1 s2" "closed_marks s s1" "closed_marks s1 s2"
  shows "closed_marks s s2"
proof (rule closed_marksI)
  fix u c
  assume u: "u < length (tasks s)" "\<not> is_finished (tasks s ! u)" "is_finished (tasks s2 ! u)"
    and c: "c \<in> set (children (tasks s ! u))" "c < length (tasks s)"
  have len: "length (tasks s1) = length (tasks s)" using assms(1) by (simp add: evolves_def)
  show "is_finished (tasks s2 ! c)"
  proof (cases "is_finished (tasks s1 ! u)")
    case True
    have "is_finished (tasks s1 ! c)" by (rule closed_marksD[OF assms(3) u(1,2) True c])
    moreover have "c < length (tasks s1)" using c(2) len by simp
    ultimately have "tasks s2 ! c = tasks s1 ! c"
      using evolves_finished_same[OF assms(2)] by blast
    then show ?thesis using \<open>is_finished (tasks s1 ! c)\<close> by simp
  next
    case False
    have ch: "children (tasks s1 ! u) = children (tasks s ! u)"
      by (rule evolves_children[OF assms(1) u(1)])
    have u1: "u < length (tasks s1)" and c1: "c < length (tasks s1)" using u(1) c(2) len by simp_all
    have c2: "c \<in> set (children (tasks s1 ! u))" using c(1) ch by simp
    show ?thesis by (rule closed_marksD[OF assms(4) u1 False u(3) c2 c1])
  qed
qed

lemma mark_closed:
  assumes "change_state self new (cancel_gates self s) = (s1, r)"
    "closed_marks s1 s'" "self < length (tasks s)"
    "\<And>c. c \<in> set (children (tasks s1 ! self)) \<Longrightarrow> c < length (tasks s) \<Longrightarrow> is_finished (tasks s' ! c)"
  shows "closed_marks s s'"
proof (rule closed_marksI)
  fix u c
  assume u: "u < length (tasks s)" "\<not> is_finished (tasks s ! u)" "is_finished (tasks s' ! u)"
    and c: "c \<in> set (children (tasks s ! u))" "c < length (tasks s)"
  have s1: "s1 = fst (change_state self new (cancel_gates self s))" using assms(1) by simp
  have len: "length (tasks s1) = length (tasks s)" unfolding s1 by simp
  show "is_finished (tasks s' ! c)"
  proof (cases "u = self")
    case True
    have "tasks s1 ! self = (tasks (cancel_gates self s) ! self)\<lparr>state := new\<rparr>"
      unfolding s1 using assms(3) by (simp add: nth_tasks_change_state)
    then have "children (tasks s1 ! self) = children (tasks s ! self)"
      using cancel_gates_self(1)[OF assms(3)] by simp
    then have "c \<in> set (children (tasks s1 ! self))" using c(1) True by simp
    then show ?thesis using assms(4) c(2) by blast
  next
    case False
    have eq: "tasks s1 ! u = tasks s ! u"
      unfolding s1 using False by (simp add: nth_tasks_change_state cancel_gates_other)
    have u1: "u < length (tasks s1)" and c1: "c < length (tasks s1)" using u(1) c(2) len by simp_all
    have nf: "\<not> is_finished (tasks s1 ! u)" using u(2) eq by simp
    have c2: "c \<in> set (children (tasks s1 ! u))" using c(1) eq by simp
    show ?thesis by (rule closed_marksD[OF assms(2) u1 nf u(3) c2 c1])
  qed
qed

lemma priv_cancel_closed:
  "priv_cancel d self s = (s', None) \<Longrightarrow>
     closed_marks s s' \<and> (self < length (tasks s) \<longrightarrow> is_finished (tasks s' ! self))"
  "priv_cancel_children d cs s = (s', None) \<Longrightarrow>
     closed_marks s s' \<and> (\<forall>c \<in> set cs. c < length (tasks s) \<longrightarrow> is_finished (tasks s' ! c))"
proof (induction d self s and d cs s arbitrary: s' and s' rule: priv_cancel_priv_cancel_children.induct)
  case (1 d self s)
  show ?case
  proof (cases "length (tasks s) \<le> self \<or> is_finished (tasks s ! self)")
    case True
    then have "s' = s" using 1(2) by simp
    then show ?thesis using True closed_marks_refl by auto
  next
    case False
    let ?new = "if d then Discarded else Cancelled"
    obtain s1 r where cs: "change_state self ?new (cancel_gates self s) = (s1, r)" by force
    have unf: "priv_cancel d self s =
        (case r of Some x \<Rightarrow> (s1, Some x)
         | None \<Rightarrow> priv_cancel_children d (children (tasks s1 ! self)) s1)"
      using False cs by (simp split: option.splits)
    have rn: "r = None" using 1(2) unf by (cases r) simp_all
    have pc: "priv_cancel_children d (children (tasks s1 ! self)) s1 = (s', None)"
      using 1(2) unf rn by simp
    have ih: "closed_marks s1 s' \<and>
        (\<forall>c \<in> set (children (tasks s1 ! self)). c < length (tasks s1) \<longrightarrow> is_finished (tasks s' ! c))"
      by (rule 1(1)[OF False cs[symmetric] rn pc])
    have s1: "s1 = fst (change_state self ?new (cancel_gates self s))" using cs by simp
    have len: "length (tasks s1) = length (tasks s)" unfolding s1 by simp
    have self_lt: "self < length (tasks s)" using False by simp
    have ev: "evolves {flavour d} s1 s'"
      using priv_cancel_evolves(2)[of d s1 "children (tasks s1 ! self)"] pc by simp
    have cm: "closed_marks s s'"
    proof (rule mark_closed[OF cs _ self_lt])
      show "closed_marks s1 s'" using ih by simp
    next
      fix c assume "c \<in> set (children (tasks s1 ! self))" "c < length (tasks s)"
      then show "is_finished (tasks s' ! c)" using ih len by simp
    qed
    have "tasks s1 ! self = (tasks (cancel_gates self s) ! self)\<lparr>state := ?new\<rparr>"
      unfolding s1 using self_lt by (simp add: nth_tasks_change_state)
    then have f1: "is_finished (tasks s1 ! self)" by (simp add: is_finished_def)
    have "tasks s' ! self = tasks s1 ! self"
      using evolves_finished_same[OF ev _ f1] self_lt len by simp
    then have "is_finished (tasks s' ! self)" using f1 by simp
    then show ?thesis using cm by simp
  qed
next
  case (2 d s)
  then have "s' = s" by simp
  then show ?case using closed_marks_refl by simp
next
  case (3 d child rest s)
  obtain s1 r where pc: "priv_cancel d child s = (s1, r)" by force
  have unf: "priv_cancel_children d (child # rest) s =
      (case r of Some x \<Rightarrow> (s1, Some x) | None \<Rightarrow> priv_cancel_children d rest s1)"
    using pc by (simp split: option.splits)
  have rn: "r = None" using 3(3) unf by (cases r) simp_all
  have rest: "priv_cancel_children d rest s1 = (s', None)" using 3(3) unf rn by simp
  have pc1: "priv_cancel d child s = (s1, None)" using pc rn by simp
  have ih1: "closed_marks s s1 \<and> (child < length (tasks s) \<longrightarrow> is_finished (tasks s1 ! child))"
    by (rule 3(1)[OF pc1])
  have ih2: "closed_marks s1 s' \<and> (\<forall>c \<in> set rest. c < length (tasks s1) \<longrightarrow> is_finished (tasks s' ! c))"
    by (rule 3(2)[OF pc[symmetric] rn rest])
  have ev1: "evolves {flavour d} s s1" using priv_cancel_evolves(1)[of d s child] pc by simp
  have ev2: "evolves {flavour d} s1 s'" using priv_cancel_evolves(2)[of d s1 rest] rest by simp
  have len: "length (tasks s1) = length (tasks s)" using ev1 by (simp add: evolves_def)
  have cm: "closed_marks s s'"
    using closed_marks_trans[OF ev1 ev2] ih1 ih2 by blast
  have ch: "child < length (tasks s) \<longrightarrow> is_finished (tasks s' ! child)"
  proof
    assume lt: "child < length (tasks s)"
    then have f1: "is_finished (tasks s1 ! child)" using ih1 by simp
    have "tasks s' ! child = tasks s1 ! child"
      using evolves_finished_same[OF ev2 _ f1] lt len by simp
    then show "is_finished (tasks s' ! child)" using f1 by simp
  qed
  have "\<forall>c \<in> set (child # rest). c < length (tasks s) \<longrightarrow> is_finished (tasks s' ! c)"
    using ch ih2 len by simp
  then show ?case using cm by blast
qed

lemma live_path_finished:
  assumes "closed_marks s s'" "t < length (tasks s)" "\<not> is_finished (tasks s ! t)"
    "is_finished (tasks s' ! t)" "live_path s t p" "u \<in> set p"
  shows "is_finished (tasks s' ! u) \<and> u < length (tasks s) \<and> \<not> is_finished (tasks s ! u)"
  using assms(2-)
proof (induction p arbitrary: t)
  case Nil
  then show ?case by simp
next
  case (Cons c cs)
  have c: "c \<in> set (children (tasks s ! t))" "c < length (tasks s)"
    "\<not> is_finished (tasks s ! c)" "live_path s c cs"
    using Cons.prems(4) by simp_all
  have fc: "is_finished (tasks s' ! c)"
    by (rule closed_marksD[OF assms(1) Cons.prems(1,2,3) c(1,2)])
  show ?case
  proof (cases "u = c")
    case True
    then show ?thesis using fc c by simp
  next
    case False
    then have "u \<in> set cs" using Cons.prems(5) by simp
    then show ?thesis by (rule Cons.IH[OF c(2,3) fc c(4)])
  qed
qed

lemma priv_cancel_live_path:
  assumes "self < length (tasks s)" "\<not> is_finished (tasks s ! self)"
    "priv_cancel d self s = (s', None)" "live_path s self p" "u \<in> set p"
  shows "state (tasks s' ! u) = flavour d"
proof -
  have cm: "closed_marks s s'" and fin: "is_finished (tasks s' ! self)"
    using priv_cancel_closed(1)[OF assms(3)] assms(1) by auto
  have ev: "evolves {flavour d} s s'" using priv_cancel_evolves(1)[of d s self] assms(3) by simp
  have "is_finished (tasks s' ! u) \<and> u < length (tasks s) \<and> \<not> is_finished (tasks s ! u)"
    by (rule live_path_finished[OF cm assms(1,2) fin assms(4,5)])
  then have "state (tasks s' ! u) \<in> {flavour d}"
    using evolves_changed_state[OF ev] by blast
  then show ?thesis by simp
qed

lemma live_path_upd_cancelled_by:
  "live_path (upd_task x (\<lambda>t. t\<lparr>cancelled_by := v\<rparr>) s) t p = live_path s t p"
  by (induction p arbitrary: t) (auto simp: nth_upd_task is_finished_def)

text \<open>
  C2, as the code has it. \<^verbatim>\<open>cancel()\<close> passes \<^verbatim>\<open>discard=False\<close> to \<^verbatim>\<open>__cancel\<close>, and
  \<^verbatim>\<open>__cancel\<close> passes its own flag on to every child. When \<^verbatim>\<open>cancel()\<close>, called by a
  current task on a task that is not terminal, returns, that task and every live
  descendant of it are \<^verbatim>\<open>cancelled\<close>. The descendants are \<^verbatim>\<open>discarded\<close> when the task
  itself is cancelled by \<^verbatim>\<open>__cancel(discard=True)\<close>, and then it is \<^verbatim>\<open>discarded\<close> too.
\<close>

theorem cancel_live_descendants:
  assumes "self < length (tasks s)" "\<not> is_finished (tasks s ! self)"
  shows "(cancel (Some c) self s = (s', None) \<longrightarrow>
            state (tasks s' ! self) = Cancelled
            \<and> (\<forall>p u. live_path s self p \<and> u \<in> set p \<longrightarrow> state (tasks s' ! u) = Cancelled))
       \<and> (priv_cancel True self s = (s'', None) \<longrightarrow>
            state (tasks s'' ! self) = Discarded
            \<and> (\<forall>p u. live_path s self p \<and> u \<in> set p \<longrightarrow> state (tasks s'' ! u) = Discarded))"
proof (intro conjI impI allI)
  let ?s0 = "upd_task self (\<lambda>t. t\<lparr>cancelled_by := Some c\<rparr>) s"
  have l0: "self < length (tasks ?s0)" "\<not> is_finished (tasks ?s0 ! self)"
    using assms by (simp_all add: nth_upd_task is_finished_def)
  {
    assume a: "cancel (Some c) self s = (s', None)"
    then have pc: "priv_cancel False self ?s0 = (s', None)"
      by (simp add: cancel_def current_task_def)
    show "state (tasks s' ! self) = Cancelled"
      using priv_cancel_self_state[OF l0, of False] pc by (simp add: flavour_def)
    fix p u assume "live_path s self p \<and> u \<in> set p"
    then have "live_path ?s0 self p" "u \<in> set p" by (simp_all add: live_path_upd_cancelled_by)
    then show "state (tasks s' ! u) = Cancelled"
      using priv_cancel_live_path[OF l0 pc] by (simp add: flavour_def)
  }
  {
    assume pc: "priv_cancel True self s = (s'', None)"
    show "state (tasks s'' ! self) = Discarded"
      using priv_cancel_self_state[OF assms, of True] pc by (simp add: flavour_def)
    fix p u assume "live_path s self p \<and> u \<in> set p"
    then have "live_path s self p" "u \<in> set p" by simp_all
    then show "state (tasks s'' ! u) = Discarded"
      using priv_cancel_live_path[OF assms pc] by (simp add: flavour_def)
  }
qed

lemma c2_live: "\<not> is_finished (tasks c2_state ! 1) \<and> live_path c2_state 1 [2]"
  by code_simp

lemma c2_cancel:
  "snd (cancel (Some 0) 1 c2_state) = None
   \<and> state (tasks (fst (cancel (Some 0) 1 c2_state)) ! 1) = Cancelled
   \<and> state (tasks (fst (cancel (Some 0) 1 c2_state)) ! 2) = Cancelled"
  by code_simp

text \<open>
  The claim as stated fails in \<open>c2_state\<close>: the root cancels task 1, and task 2, a live
  descendant of task 1, ends \<^verbatim>\<open>cancelled\<close>, not \<^verbatim>\<open>discarded\<close>.
\<close>

theorem descendant_cancelled_counterexample:
  "\<not> is_finished (tasks c2_state ! 1) \<and> live_path c2_state 1 [2]
   \<and> snd (cancel (Some 0) 1 c2_state) = None
   \<and> state (tasks (fst (cancel (Some 0) 1 c2_state)) ! 1) = Cancelled
   \<and> state (tasks (fst (cancel (Some 0) 1 c2_state)) ! 2) \<noteq> Discarded"
  using c2_live c2_cancel by simp

text \<open>
  In \<open>c2_state\<close> the cancellation of task 1 by the root returns and leaves task 1 and
  its live descendant, task 2, \<^verbatim>\<open>cancelled\<close>.
\<close>

theorem cancel_live_descendants_witness:
  "live_path c2_state 1 [2]
   \<and> cancel (Some 0) 1 c2_state = (fst (cancel (Some 0) 1 c2_state), None)
   \<and> state (tasks (fst (cancel (Some 0) 1 c2_state)) ! 1) = Cancelled
   \<and> state (tasks (fst (cancel (Some 0) 1 c2_state)) ! 2) = Cancelled"
proof -
  have a: "(1::nat) < length (tasks c2_state)" by (simp add: c2_state_def init_state_def)
  have b: "\<not> is_finished (tasks c2_state ! 1)" "live_path c2_state 1 [2]" "2 \<in> set [2::nat]"
    using c2_live by simp_all
  have c: "cancel (Some 0) 1 c2_state = (fst (cancel (Some 0) 1 c2_state), None)"
    using c2_cancel by (metis prod.collapse)
  show ?thesis
    using cancel_live_descendants [OF a b(1), of 0 "fst (cancel (Some 0) 1 c2_state)"] b(2,3) c
    by blast
qed

section \<open>The deferred discard\<close>

text \<open>
  C5, as the code has it. \<^verbatim>\<open>__discard_via\<close>, run on a task T for a source task S, tests the
  \<^verbatim>\<open>__cancelled_by\<close> attribute of the source S against T. It does nothing when S was
  cancelled by T, and nothing when T is already terminal (\<^verbatim>\<open>__cancel\<close> returns at once,
  so an earlier cancellation of T keeps its flavour); in every other case T becomes
  \<^verbatim>\<open>discarded\<close>.
\<close>

theorem discard_via_guard:
  assumes "self < length (tasks s)"
  shows "(cancelled_by (tasks s ! task) = Some self \<longrightarrow> discard_via self task s = (s, None))
       \<and> (is_finished (tasks s ! self) \<longrightarrow> discard_via self task s = (s, None))
       \<and> (cancelled_by (tasks s ! task) \<noteq> Some self \<and> \<not> is_finished (tasks s ! self) \<longrightarrow>
            state (tasks (fst (discard_via self task s)) ! self) = Discarded)"
proof (intro conjI impI)
  show "discard_via self task s = (s, None)" if "cancelled_by (tasks s ! task) = Some self"
    using that by (simp add: discard_via_def)
  show "discard_via self task s = (s, None)" if "is_finished (tasks s ! self)"
    using that by (simp add: discard_via_def)
  show "state (tasks (fst (discard_via self task s)) ! self) = Discarded"
    if "cancelled_by (tasks s ! task) \<noteq> Some self \<and> \<not> is_finished (tasks s ! self)"
    using that priv_cancel_self_state[OF assms, of True] by (simp add: discard_via_def flavour_def)
qed

lemma c5_facts:
  "length (tasks c5_state) = 2"
  "cancelled_by (tasks c5_state ! 1) = Some 0"
  "cancelled_by (tasks c5_state ! 0) = None"
  "state (tasks c5_state ! 0) = Running"
  "state (tasks c5_state ! 1) = Cancelled"
  by code_simp+

text \<open>
  The claim as stated fails in \<open>c5_state\<close>: the \<^verbatim>\<open>__cancelled_by\<close> of the root
  (task 0) is not its child (task 1), the root is not terminal, and yet the discard of
  the root via the child does nothing.
\<close>

theorem discard_direction_counterexample:
  "cancelled_by (tasks c5_state ! 0) \<noteq> Some 1
   \<and> \<not> is_finished (tasks c5_state ! 0)
   \<and> discard_via 0 1 c5_state = (c5_state, None)
   \<and> state (tasks (fst (discard_via 0 1 c5_state)) ! 0) = Running"
  using c5_facts by (simp add: discard_via_def is_finished_def)

text \<open>
  In \<open>c5_state\<close>: the discard of the root via the child it cancelled does nothing; the
  discard of the child, already \<^verbatim>\<open>cancelled\<close>, does nothing; a discard of the root via a
  task it did not cancel leaves it \<^verbatim>\<open>discarded\<close>.
\<close>

theorem discard_via_guard_witness:
  "discard_via 0 1 c5_state = (c5_state, None)
   \<and> discard_via 1 0 c5_state = (c5_state, None)
   \<and> state (tasks (fst (discard_via 0 0 c5_state)) ! 0) = Discarded"
proof -
  have a: "(0::nat) < length (tasks c5_state)" "(1::nat) < length (tasks c5_state)"
    using c5_facts by simp_all
  have b: "is_finished (tasks c5_state ! 1)" "\<not> is_finished (tasks c5_state ! 0)"
    using c5_facts by (simp_all add: is_finished_def)
  show ?thesis
    using discard_via_guard [OF a(1), of 1] discard_via_guard [OF a(2), of 0]
      discard_via_guard [OF a(1), of 0] b c5_facts
    by simp
qed

section \<open>Cleanup and the discard of drained dependencies\<close>

text \<open>
  C7, the code at this input. Before the cleanup task 0 has the pending dependencies 2
  and 3, task 2 has the one reverse dependency 0 and its \<^verbatim>\<open>discard\<close> flag set, and task 3
  has the reverse dependencies 0 and 1. The cleanup removes task 0 from both sets, so the
  set of task 2 is empty and a closure is queued for it. The closure reads the loop
  variable \<^verbatim>\<open>task\<close> when it runs, after the loop has ended at task 3: it discards task 3,
  which still has the reverse dependency 1, and task 2 is never cancelled.
\<close>

theorem cleanup_discards_last_dependency:
  "map fst (pending_dependencies (tasks c7_deps ! 0)) = [2, 3]
   \<and> reverse_dependencies (tasks c7_deps ! 2) = [0]
   \<and> reverse_dependencies (tasks c7_deps ! 3) = [0, 1]
   \<and> discard (tasks c7_deps ! 2)
   \<and> reverse_dependencies (tasks c7_state ! 2) = []
   \<and> reverse_dependencies (tasks c7_state ! 3) = [1]
   \<and> soon c7_state = [CancelTaskVar 0]
   \<and> cleanup_task_var c7_state 0 = Some 3
   \<and> state (tasks (fst (run_callback (CancelTaskVar 0) c7_state)) ! 2) = Preparing
   \<and> state (tasks (fst (run_callback (CancelTaskVar 0) c7_state)) ! 3) = Discarded"
  by code_simp

section \<open>The propagator and error handlers\<close>

lemma background_error_handler:
  "background self tgt True True s =
     (if is_finished (tasks s ! self)
      then s\<lparr>aio_tasks := aio_tasks s @
              [\<lparr>owner = self, target = tgt, wait = False, aio_cancelled = False\<rparr>]\<rparr>
      else upd_task self (\<lambda>t. t\<lparr>aio_wait_background_tasks :=
                stable_add (length (aio_tasks s)) (aio_wait_background_tasks t)\<rparr>)
             (s\<lparr>aio_tasks := aio_tasks s @
                [\<lparr>owner = self, target = tgt, wait = True, aio_cancelled = False\<rparr>]\<rparr>),
      None)"
  by (simp add: background_def Let_def)

lemma propagate_failure_handled:
  assumes "fetch_exception task exception s = Inr (Some e0)"
    and "matching_handler (tasks s ! self) task = Some h"
  shows "propagate_failure self task exception wrap s =
           background self (HandlerCall h (wrap_exception wrap task e0)) True True s"
  using assms
  by (auto simp: propagate_failure_def matching_handler_def Let_def split: option.splits)

text \<open>
  C3, as the code has it. When the propagator routes an exception (the one given or the
  one of the source's finished-gate, wrapped when \<^verbatim>\<open>wrap\<close> is given) from a source S to an
  observer T that has a handler keyed by S, or else a wildcard handler, it creates one
  background coroutine of T that calls that handler with the routed exception; the keyed
  handler wins over the wildcard. T does not abort: its state and gates stay, and no
  discard is queued. The coroutine is registered as a drain handle of T when T is not
  terminal; when T is already terminal it is created all the same, with \<^verbatim>\<open>wait\<close> false,
  and entered in neither set of background handles.
\<close>

theorem propagate_to_handler:
  assumes "fetch_exception task exception s = Inr (Some e0)"
    and "matching_handler (tasks s ! self) task = Some h"
    and "self < length (tasks s)"
    and "s' = fst (propagate_failure self task exception wrap s)"
  shows "snd (propagate_failure self task exception wrap s) = None
     \<and> aio_tasks s' = aio_tasks s @
          [\<lparr>owner = self, target = HandlerCall h (wrap_exception wrap task e0),
            wait = (\<not> is_finished (tasks s ! self)), aio_cancelled = False\<rparr>]
     \<and> aio_wait_background_tasks (tasks s' ! self) =
          (if is_finished (tasks s ! self) then aio_wait_background_tasks (tasks s ! self)
           else stable_add (length (aio_tasks s)) (aio_wait_background_tasks (tasks s ! self)))
     \<and> aio_background_tasks (tasks s' ! self) = aio_background_tasks (tasks s ! self)
     \<and> state (tasks s' ! self) = state (tasks s ! self)
     \<and> started (tasks s' ! self) = started (tasks s ! self)
     \<and> finished (tasks s' ! self) = finished (tasks s ! self)
     \<and> soon s' = soon s
     \<and> (error_handlers (tasks s ! self) (Some task) \<noteq> None \<longrightarrow>
          error_handlers (tasks s ! self) (Some task) = Some h)"
proof -
  have p: "propagate_failure self task exception wrap s =
           background self (HandlerCall h (wrap_exception wrap task e0)) True True s"
    by (rule propagate_failure_handled[OF assms(1,2)])
  have k: "error_handlers (tasks s ! self) (Some task) \<noteq> None \<longrightarrow>
          error_handlers (tasks s ! self) (Some task) = Some h"
    using assms(2) by (auto simp: matching_handler_def)
  show ?thesis
    unfolding assms(4) p background_error_handler using assms(3) k
    by (simp add: nth_upd_task upd_task_def)
qed

text \<open>
  The claim as stated fails in \<open>c3_state\<close>: task 1 is \<^verbatim>\<open>cancelled\<close> and has a handler
  keyed by task 2. The propagator creates the coroutine for that handler with \<^verbatim>\<open>wait\<close>
  false, and the set of drain handles of task 1 stays empty.
\<close>

theorem handler_not_drain_counterexample:
  "matching_handler (tasks c3_state ! 1) 2 = Some 7
   \<and> fetch_exception 2 None c3_state = Inr (Some (Exc CancelledError None))
   \<and> snd (propagate_failure 1 2 None (Some ChildWrap) c3_state) = None
   \<and> aio_tasks (fst (propagate_failure 1 2 None (Some ChildWrap) c3_state)) =
        [\<lparr>owner = 1, target = HandlerCall 7 (Exc (ChildCancelled 2) None), wait = False,
          aio_cancelled = False\<rparr>]
   \<and> aio_wait_background_tasks
        (tasks (fst (propagate_failure 1 2 None (Some ChildWrap) c3_state)) ! 1) = []"
  by code_simp

text \<open>
  In \<open>c3_init\<close>, where task 1 is running: a failure of task 2 goes to the handler keyed
  by task 2 as a drain handle, although a wildcard handler exists; a failure of task 0,
  for which no handler is keyed, goes to the wildcard handler; task 1 stays running.
\<close>

theorem propagate_to_handler_witness:
  "aio_tasks (fst (propagate_failure 1 2 (Some (Exc (UserError 5) None)) (Some ChildWrap) c3_init)) =
        [\<lparr>owner = 1, target = HandlerCall 7 (Exc (ChildFailed 2) (Some (Exc (UserError 5) None))),
          wait = True, aio_cancelled = False\<rparr>]
   \<and> aio_wait_background_tasks
        (tasks (fst (propagate_failure 1 2 (Some (Exc (UserError 5) None)) (Some ChildWrap) c3_init)) ! 1) = [0]
   \<and> aio_tasks (fst (propagate_failure 1 0 (Some (Exc (UserError 5) None)) None c3_init)) =
        [\<lparr>owner = 1, target = HandlerCall 8 (Exc (UserError 5) None),
          wait = True, aio_cancelled = False\<rparr>]
   \<and> state (tasks (fst (propagate_failure 1 2 (Some (Exc (UserError 5) None)) (Some ChildWrap) c3_init)) ! 1) = Running"
proof -
  let ?e = "Exc (UserError 5) None"
  have a: "fetch_exception 2 (Some ?e) c3_init = Inr (Some ?e)"
     "fetch_exception 0 (Some ?e) c3_init = Inr (Some ?e)"
    by (simp_all add: fetch_exception_def)
  have b: "matching_handler (tasks c3_init ! 1) 2 = Some 7"
     "matching_handler (tasks c3_init ! 1) 0 = Some 8"
    by code_simp+
  have c: "(1::nat) < length (tasks c3_init)" "\<not> is_finished (tasks c3_init ! 1)"
    "aio_tasks c3_init = []" "aio_wait_background_tasks (tasks c3_init ! 1) = []"
    "state (tasks c3_init ! 1) = Running"
    by code_simp+
  show ?thesis
    using propagate_to_handler [OF a(1) b(1) c(1) refl, of "Some ChildWrap"]
      propagate_to_handler [OF a(2) b(2) c(1) refl, of None] c(2-)
    by (simp add: wrap_exception_def stable_add_def)
qed

section \<open>Failure and its propagation along dependencies\<close>

lemma length_tasks_fail_gates [simp]: "length (tasks (fail_gates self e s)) = length (tasks s)"
  by (simp add: fail_gates_def Let_def)












section \<open>The order of the gates\<close>



lemma tasks_cancel_aio_tasks [simp]: "tasks (cancel_aio_tasks as s) = tasks s"
  by (induction as arbitrary: s) simp_all

lemma tasks_cancel_cursors [simp]: "tasks (cancel_cursors cs s) = tasks s"
  by (induction cs arbitrary: s) simp_all






section \<open>Event streams\<close>

lemma delivered_refl: "wf_cursors s \<Longrightarrow> delivered ev {} s s"
  by (simp add: delivered_def)

lemma delivered_absent:
  assumes "delivered ev K s s'" "map_of (cursors s cur) m = None"
  shows "delivered ev (insert (cur, m) K) s s'"
  using assms unfolding delivered_def by auto

lemma delivered_trans:
  assumes wf: "wf_cursors s" and d1: "delivered ev K1 s s1" and d2: "delivered ev K2 s1 s2"
    and dis: "K1 \<inter> K2 = {}"
  shows "delivered ev (K1 \<union> K2) s s2"
proof -
  have n1: "nfut s \<le> nfut s1" and n2: "nfut s1 \<le> nfut s2"
    using d1 d2 by (simp_all add: delivered_def)
  have k1: "\<And>g. g < nfut s \<Longrightarrow> futs s g \<noteq> CPending \<Longrightarrow> futs s1 g = futs s g"
    and k2: "\<And>g. g < nfut s1 \<Longrightarrow> futs s1 g \<noteq> CPending \<Longrightarrow> futs s2 g = futs s1 g"
    using d1 d2 by (simp_all add: delivered_def)
  have o1: "\<And>a ty. (a, ty) \<notin> K1 \<Longrightarrow> map_of (cursors s1 a) ty = map_of (cursors s a) ty"
    and o1f: "\<And>a ty f. (a, ty) \<notin> K1 \<Longrightarrow> map_of (cursors s a) ty = Some f \<Longrightarrow> futs s1 f = futs s f"
    and o2: "\<And>a ty. (a, ty) \<notin> K2 \<Longrightarrow> map_of (cursors s2 a) ty = map_of (cursors s1 a) ty"
    and o2f: "\<And>a ty f. (a, ty) \<notin> K2 \<Longrightarrow> map_of (cursors s1 a) ty = Some f \<Longrightarrow> futs s2 f = futs s1 f"
    using d1 d2 by (simp_all add: delivered_def)
  have p1: "\<And>a ty f. (a, ty) \<in> K1 \<Longrightarrow> map_of (cursors s a) ty = Some f \<Longrightarrow>
      \<exists>f1. futs s1 f = CResult ev f1 \<and> map_of (cursors s1 a) ty = Some f1
                \<and> futs s1 f1 = CPending \<and> nfut s \<le> f1"
    and p2: "\<And>a ty f. (a, ty) \<in> K2 \<Longrightarrow> map_of (cursors s1 a) ty = Some f \<Longrightarrow>
      \<exists>f1. futs s2 f = CResult ev f1 \<and> map_of (cursors s2 a) ty = Some f1
                \<and> futs s2 f1 = CPending \<and> nfut s1 \<le> f1"
    using d1 d2 unfolding delivered_def by blast+
  have lt: "\<And>a ty c. map_of (cursors s a) ty = Some c \<Longrightarrow> c < nfut s"
    using wf unfolding wf_cursors_def by blast
  show ?thesis
    unfolding delivered_def
  proof (intro conjI allI impI)
    show "wf_cursors s2" using d2 by (simp add: delivered_def)
    show "nfut s \<le> nfut s2" using n1 n2 by simp
  next
    fix g assume "g < nfut s" "futs s g \<noteq> CPending"
    then show "futs s2 g = futs s g" using k1[of g] k2[of g] n1 by simp
  next
    fix a ty assume "(a, ty) \<notin> K1 \<union> K2"
    then show "map_of (cursors s2 a) ty = map_of (cursors s a) ty"
      using o1[of a ty] o2[of a ty] by simp
  next
    fix a ty f assume "(a, ty) \<notin> K1 \<union> K2" "map_of (cursors s a) ty = Some f"
    then show "futs s2 f = futs s f"
      using o1[of a ty] o1f[of a ty f] o2f[of a ty f] by simp
  next
    fix a ty f assume h: "(a, ty) \<in> K1 \<union> K2 \<and> map_of (cursors s a) ty = Some f"
    show "\<exists>f1. futs s2 f = CResult ev f1 \<and> map_of (cursors s2 a) ty = Some f1
                \<and> futs s2 f1 = CPending \<and> nfut s \<le> f1"
    proof (cases "(a, ty) \<in> K1")
      case True
      then have nk2: "(a, ty) \<notin> K2" using dis by blast
      obtain f1 where f1: "futs s1 f = CResult ev f1" "map_of (cursors s1 a) ty = Some f1"
          "futs s1 f1 = CPending" "nfut s \<le> f1"
        using p1[OF True] h by blast
      have "f < nfut s1" using lt h n1 by force
      then have "futs s2 f = CResult ev f1" using k2[of f] f1(1) by simp
      moreover have "map_of (cursors s2 a) ty = Some f1" using o2[OF nk2] f1(2) by simp
      moreover have "futs s2 f1 = CPending" using o2f[OF nk2 f1(2)] f1(3) by simp
      ultimately show ?thesis using f1(4) by blast
    next
      case False
      then have k2': "(a, ty) \<in> K2" using h by blast
      have c1: "map_of (cursors s1 a) ty = Some f" using o1[OF False] h by simp
      obtain f1 where f1: "futs s2 f = CResult ev f1" "map_of (cursors s2 a) ty = Some f1"
          "futs s2 f1 = CPending" "nfut s1 \<le> f1"
        using p2[OF k2' c1] by blast
      then show ?thesis using n1 by force
    qed
  qed
qed

lemma delivered_step:
  assumes wf: "wf_cursors s" and c: "map_of (cursors s cur) m = Some c"
    and p: "futs s c = CPending"
    and s': "cursors s' = (cursors s)(cur := AList.update m (nfut s) (cursors s cur))"
       "futs s' = (futs s)(nfut s := CPending, c := CResult ev (nfut s))"
       "nfut s' = Suc (nfut s)"
  shows "delivered ev {(cur, m)} s s'"
proof -
  have lt: "\<And>a ty x. map_of (cursors s a) ty = Some x \<Longrightarrow> x < nfut s"
    and inj: "\<And>a ty a' ty' x. map_of (cursors s a) ty = Some x \<Longrightarrow>
       map_of (cursors s a') ty' = Some x \<Longrightarrow> a = a' \<and> ty = ty'"
    using wf unfolding wf_cursors_def by blast+
  have cl: "c < nfut s" using lt c by blast
  have C1: "map_of (cursors s' cur) m = Some (nfut s)"
    unfolding s'(1) by (simp add: update_conv')
  have C2: "\<And>a ty. \<not> (a = cur \<and> ty = m) \<Longrightarrow> map_of (cursors s' a) ty = map_of (cursors s a) ty"
    unfolding s'(1) by (auto simp: update_conv')
  have H: "\<And>g. futs s' g =
      (if g = c then CResult ev (nfut s) else if g = nfut s then CPending else futs s g)"
    unfolding s'(2) by simp
  have old: "\<And>a ty x. map_of (cursors s' a) ty = Some x \<Longrightarrow> x \<noteq> nfut s \<Longrightarrow>
      map_of (cursors s a) ty = Some x \<and> \<not> (a = cur \<and> ty = m)"
  proof -
    fix a ty x assume h: "map_of (cursors s' a) ty = Some x" "x \<noteq> nfut s"
    show "map_of (cursors s a) ty = Some x \<and> \<not> (a = cur \<and> ty = m)"
    proof (cases "a = cur \<and> ty = m")
      case True
      then have "x = nfut s" using h(1) C1 by simp
      then show ?thesis using h(2) by simp
    next
      case False
      then show ?thesis using h(1) C2[OF False] by simp
    qed
  qed
  have new: "\<And>a ty. map_of (cursors s' a) ty = Some (nfut s) \<Longrightarrow> a = cur \<and> ty = m"
  proof -
    fix a ty assume h: "map_of (cursors s' a) ty = Some (nfut s)"
    show "a = cur \<and> ty = m"
    proof (rule ccontr)
      assume n: "\<not> (a = cur \<and> ty = m)"
      then have "map_of (cursors s a) ty = Some (nfut s)" using h C2[OF n] by simp
      then have "nfut s < nfut s" by (rule lt)
      then show False by simp
    qed
  qed
  have wf': "wf_cursors s'"
    unfolding wf_cursors_def
  proof (intro conjI allI impI)
    fix a ty x assume h: "map_of (cursors s' a) ty = Some x"
    show "x < nfut s'"
    proof (cases "x = nfut s")
      case True
      then show ?thesis using s'(3) by simp
    next
      case False
      then have "x < nfut s" using old[OF h False] lt by blast
      then show ?thesis using s'(3) by simp
    qed
  next
    fix a ty a' ty' x
    assume h: "map_of (cursors s' a) ty = Some x \<and> map_of (cursors s' a') ty' = Some x"
    have "a = a' \<and> ty = ty'"
    proof (cases "x = nfut s")
      case True
      then show ?thesis using new[of a ty] new[of a' ty'] h by simp
    next
      case False
      then show ?thesis using old[of a ty x] old[of a' ty' x] h inj[of a ty x a' ty'] by blast
    qed
    then show "a = a'" "ty = ty'" by simp_all
  qed
  show ?thesis
    unfolding delivered_def
  proof (intro conjI allI impI)
    show "wf_cursors s'" by (rule wf')
    show "nfut s \<le> nfut s'" using s'(3) by simp
  next
    fix g assume g: "g < nfut s" "futs s g \<noteq> CPending"
    then have "g \<noteq> c" "g \<noteq> nfut s" using p by auto
    then show "futs s' g = futs s g" using H[of g] by simp
  next
    fix a ty assume "(a, ty) \<notin> {(cur, m)}"
    then have "\<not> (a = cur \<and> ty = m)" by simp
    then show "map_of (cursors s' a) ty = map_of (cursors s a) ty" by (rule C2)
  next
    fix a ty f assume h: "(a, ty) \<notin> {(cur, m)}" "map_of (cursors s a) ty = Some f"
    have "f \<noteq> c" using inj[of a ty f cur m] h c by auto
    moreover have "f \<noteq> nfut s" using lt[OF h(2)] by simp
    ultimately show "futs s' f = futs s f" using H[of f] by simp
  next
    fix a ty f assume "(a, ty) \<in> {(cur, m)} \<and> map_of (cursors s a) ty = Some f"
    then have e: "a = cur" "ty = m" "f = c" using c by auto
    have "futs s' c = CResult ev (nfut s)" using H[of c] by simp
    moreover have "map_of (cursors s' cur) m = Some (nfut s)" by (rule C1)
    moreover have "futs s' (nfut s) = CPending" using H[of "nfut s"] cl by simp
    ultimately show "\<exists>f1. futs s' f = CResult ev f1 \<and> map_of (cursors s' a) ty = Some f1
                \<and> futs s' f1 = CPending \<and> nfut s \<le> f1"
      using e by blast
  qed
qed

lemma delivered_wf: "delivered ev K s s' \<Longrightarrow> wf_cursors s'"
  by (simp add: delivered_def)

lemma deliver_mro_Cons_None:
  "map_of (cursors s cur) m = None \<Longrightarrow> deliver_mro ev cur (m # ms) s = deliver_mro ev cur ms s"
  by (simp only: deliver_mro.simps option.case)

lemma deliver_mro_Cons_Some:
  assumes "map_of (cursors s cur) m = Some c"
    and "s1 = s\<lparr>futs := (futs s)(nfut s := CPending), nfut := Suc (nfut s)\<rparr>"
    and "s2 = s1\<lparr>futs := (futs s1)(c := CResult ev (nfut s)),
                  cursors := (cursors s1)(cur := AList.update m (nfut s) (cursors s1 cur))\<rparr>"
  shows "deliver_mro ev cur (m # ms) s =
     (if futs s1 c \<noteq> CPending then (s1, Some (Exc InvalidStateError None))
      else deliver_mro ev cur ms s2)"
  unfolding assms(2,3) by (simp only: deliver_mro.simps assms(1) option.case Let_def)

lemma deliver_mro_delivered:
  assumes "wf_cursors s" "distinct ms" "deliver_mro ev cur ms s = (s', None)"
  shows "delivered ev ({cur} \<times> set ms) s s'"
  using assms
proof (induction ms arbitrary: s)
  case Nil
  then have "s' = s" by simp
  then show ?case using Nil.prems(1) by (simp add: delivered_refl)
next
  case (Cons m ms)
  note deliver_mro.simps [simp del]
  have dms: "distinct ms" and mn: "m \<notin> set ms" using Cons.prems(2) by simp_all
  have eq1: "{cur} \<times> set (m # ms) = insert (cur, m) ({cur} \<times> set ms)" by auto
  have eq2: "{cur} \<times> set (m # ms) = {(cur, m)} \<union> {cur} \<times> set ms" by auto
  show ?case
  proof (cases "map_of (cursors s cur) m")
    case None
    have "deliver_mro ev cur ms s = (s', None)"
      using Cons.prems(3) deliver_mro_Cons_None[OF None] by simp
    then have "delivered ev ({cur} \<times> set ms) s s'" by (rule Cons.IH[OF Cons.prems(1) dms])
    then have "delivered ev (insert (cur, m) ({cur} \<times> set ms)) s s'"
      using None by (rule delivered_absent)
    then show ?thesis unfolding eq1 .
  next
    case (Some c)
    define s1 where "s1 = s\<lparr>futs := (futs s)(nfut s := CPending), nfut := Suc (nfut s)\<rparr>"
    define s2 where "s2 = s1\<lparr>futs := (futs s1)(c := CResult ev (nfut s)),
                  cursors := (cursors s1)(cur := AList.update m (nfut s) (cursors s1 cur))\<rparr>"
    have unf: "deliver_mro ev cur (m # ms) s =
     (if futs s1 c \<noteq> CPending then (s1, Some (Exc InvalidStateError None))
      else deliver_mro ev cur ms s2)"
      by (rule deliver_mro_Cons_Some[OF Some s1_def s2_def])
    have cl: "c < nfut s" using Cons.prems(1) Some unfolding wf_cursors_def by blast
    have p1: "futs s1 c = CPending"
    proof (rule ccontr)
      assume "futs s1 c \<noteq> CPending"
      then have "deliver_mro ev cur (m # ms) s = (s1, Some (Exc InvalidStateError None))"
        using unf by simp
      then show False using Cons.prems(3) by simp
    qed
    have "futs s1 c = futs s c" using cl by (simp add: s1_def)
    then have pend: "futs s c = CPending" using p1 by simp
    have rec: "deliver_mro ev cur ms s2 = (s', None)"
      using Cons.prems(3) unf p1 by simp
    have f2: "cursors s2 = (cursors s)(cur := AList.update m (nfut s) (cursors s cur))"
      "futs s2 = (futs s)(nfut s := CPending, c := CResult ev (nfut s))"
      "nfut s2 = Suc (nfut s)"
      by (simp_all add: s2_def s1_def)
    have step: "delivered ev {(cur, m)} s s2"
      by (rule delivered_step[OF Cons.prems(1) Some pend f2])
    have d2: "delivered ev ({cur} \<times> set ms) s2 s'"
      by (rule Cons.IH[OF delivered_wf[OF step] dms rec])
    have dis: "{(cur, m)} \<inter> {cur} \<times> set ms = {}" using mn by auto
    have "delivered ev ({(cur, m)} \<union> {cur} \<times> set ms) s s'"
      by (rule delivered_trans[OF Cons.prems(1) step d2 dis])
    then show ?thesis unfolding eq2 .
  qed
qed

lemma emit_walk_delivered:
  assumes "wf_cursors s" "distinct chain" "distinct (mro ev)" "emit_walk ev chain s = (s', None)"
  shows "delivered ev (set chain \<times> set (mro ev)) s s'"
  using assms
proof (induction chain arbitrary: s)
  case Nil
  then show ?case by (simp add: delivered_refl)
next
  case (Cons cur rest)
  obtain s1 r where d: "deliver_mro ev cur (mro ev) s = (s1, r)" by force
  have rn: "r = None" using Cons.prems(4) d by (cases r) simp_all
  have w: "emit_walk ev rest s1 = (s', None)" using Cons.prems(4) d rn by simp
  have d1: "delivered ev ({cur} \<times> set (mro ev)) s s1"
    using deliver_mro_delivered[OF Cons.prems(1,3)] d rn by simp
  have d2: "delivered ev (set rest \<times> set (mro ev)) s1 s'"
    using Cons.IH[OF delivered_wf[OF d1] _ Cons.prems(3) w] Cons.prems(2) by simp
  have "({cur} \<times> set (mro ev)) \<inter> (set rest \<times> set (mro ev)) = {}"
    using Cons.prems(2) by auto
  then have u: "delivered ev ({cur} \<times> set (mro ev) \<union> set rest \<times> set (mro ev)) s s'"
    by (rule delivered_trans[OF Cons.prems(1) d1 d2])
  have eq: "set (cur # rest) \<times> set (mro ev) = {cur} \<times> set (mro ev) \<union> set rest \<times> set (mro ev)"
    by auto
  show ?case unfolding eq by (rule u)
qed

lemma emit_delivered:
  assumes "wf_cursors s" "distinct (source ev # ancestors (tasks s ! source ev))"
    "distinct (mro ev)" "emit ev s = (s', None)"
  shows "delivered ev (set (source ev # ancestors (tasks s ! source ev)) \<times> set (mro ev)) s s'"
proof -
  let ?s0 = "s\<lparr>emitted := emitted s @ [ev]\<rparr>"
  have wf0: "wf_cursors ?s0" using assms(1) by (simp add: wf_cursors_def)
  have w: "emit_walk ev (source ev # ancestors (tasks s ! source ev)) ?s0 = (s', None)"
    using assms(4) by (simp add: emit_def emit_event_def del: emit_walk.simps)
  have "delivered ev (set (source ev # ancestors (tasks s ! source ev)) \<times> set (mro ev)) ?s0 s'"
    by (rule emit_walk_delivered[OF wf0 assms(2,3) w])
  then show ?thesis by (simp add: delivered_def)
qed

lemma cleanup_children_bus:
  "futs (cleanup_children self cs s) = futs s \<and> cursors (cleanup_children self cs s) = cursors s"
  by (induction self cs s rule: cleanup_children.induct)
     (simp_all add: Let_def upd_task_def remove_done_callback_def)

lemma cleanup_dependencies_bus:
  "futs (cleanup_dependencies self ds s) = futs s
   \<and> cursors (cleanup_dependencies self ds s) = cursors s"
  by (induction self ds s rule: cleanup_dependencies.induct)
     (simp_all add: Let_def upd_task_def remove_done_callback_def)

lemma cancel_aio_tasks_bus:
  "futs (cancel_aio_tasks as s) = futs s \<and> cursors (cancel_aio_tasks as s) = cursors s"
  by (induction as arbitrary: s) simp_all

lemma futs_cancel_cursors:
  "futs (cancel_cursors cs s) g =
     (if g \<in> set cs \<and> futs s g = CPending then CCancelled else futs s g)"
  by (induction cs arbitrary: s) auto

lemma futs_cleanup:
  assumes "\<not> cleaned_up (tasks s ! self)"
  shows "futs (cleanup self s) g =
     (if g \<in> snd ` set (cursors s self) \<and> futs s g = CPending then CCancelled else futs s g)"
proof -
  let ?s1 = "upd_task self (\<lambda>t. t\<lparr>cleaned_up := True\<rparr>) s"
  let ?s2 = "cleanup_children self (pending_children (tasks ?s1 ! self)) ?s1"
  let ?s3 = "cleanup_dependencies self (pending_dependencies (tasks ?s2 ! self)) ?s2"
  let ?s4 = "cancel_aio_tasks (aio_background_tasks (tasks ?s3 ! self)) ?s3"
  let ?s5 = "cancel_aio_tasks (aio_wait_background_tasks (tasks ?s4 ! self)) ?s4"
  have 1: "futs ?s1 = futs s \<and> cursors ?s1 = cursors s" by (simp add: upd_task_def)
  have 2: "futs ?s2 = futs ?s1 \<and> cursors ?s2 = cursors ?s1" by (rule cleanup_children_bus)
  have 3: "futs ?s3 = futs ?s2 \<and> cursors ?s3 = cursors ?s2" by (rule cleanup_dependencies_bus)
  have 4: "futs ?s4 = futs ?s3 \<and> cursors ?s4 = cursors ?s3" by (rule cancel_aio_tasks_bus)
  have 5: "futs ?s5 = futs ?s4 \<and> cursors ?s5 = cursors ?s4" by (rule cancel_aio_tasks_bus)
  have b: "futs ?s5 = futs s" "cursors ?s5 = cursors s" using 1 2 3 4 5 by simp_all
  have "cleanup self s = cancel_cursors (map snd (cursors ?s5 self)) ?s5"
    unfolding cleanup_def Let_def using assms by (simp only: if_False)
  then show ?thesis by (simp only: futs_cancel_cursors b set_map)
qed

lemma anext_pending: "h c = CPending \<Longrightarrow> anext h wh c = Some (Suspended c)"
  by (subst anext.simps) simp

lemma anext_cancelled: "h c = CCancelled \<Longrightarrow> anext h wh c = Some StopAsyncIteration"
  by (subst anext.simps) simp

lemma anext_result:
  "h c = CResult ev n \<Longrightarrow>
     anext h wh c = (if wh ev then Some (Yield ev n) else anext h wh n)"
  by (subst anext.simps) simp

lemma linked_kept:
  assumes "linked h k c es c'" "k \<le> k'" "\<And>g. g < k \<Longrightarrow> h g \<noteq> CPending \<Longrightarrow> h' g = h g"
  shows "linked h' k' c es c'"
  using assms(1)
proof (induction es arbitrary: c)
  case Nil
  then show ?case by simp
next
  case (Cons e es)
  from Cons.prems obtain n where n: "c < k" "h c = CResult e n" "linked h k n es c'"
    by (auto split: cfut.splits)
  have "h' c = CResult e n" using assms(3)[OF n(1)] n(2) by simp
  then show ?case using Cons.IH[OF n(3)] n(1) assms(2) by simp
qed

lemma linked_snoc:
  assumes "linked h k c es c'" "c' < k" "h c' = CResult ev n"
  shows "linked h k c (es @ [ev]) n"
  using assms(1)
proof (induction es arbitrary: c)
  case Nil
  then show ?case using assms(2,3) by simp
next
  case (Cons e es)
  from Cons.prems obtain m where m: "c < k" "h c = CResult e m" "linked h k m es c'"
    by (auto split: cfut.splits)
  show ?case using Cons.IH[OF m(3)] m(1,2) by simp
qed

lemma consume_linked:
  assumes "linked h k c es c'"
  shows "(h c' = CPending \<longrightarrow> consume h wh c = Some (filter wh es, Suspended c'))
       \<and> (h c' = CCancelled \<longrightarrow> consume h wh c = Some (filter wh es, StopAsyncIteration))"
  using assms
proof (induction es arbitrary: c)
  case Nil
  then have e: "c = c'" by simp
  have "h c' = CPending \<Longrightarrow> consume h wh c' = Some ([], Suspended c')"
    by (subst consume.simps) (simp add: anext_pending)
  moreover have "h c' = CCancelled \<Longrightarrow> consume h wh c' = Some ([], StopAsyncIteration)"
    by (subst consume.simps) (simp add: anext_cancelled)
  ultimately show ?case using e by simp
next
  case (Cons e es)
  from Cons.prems obtain n where n: "h c = CResult e n" "linked h k n es c'"
    by (auto split: cfut.splits)
  have ar: "anext h wh c = (if wh e then Some (Yield e n) else anext h wh n)"
    by (rule anext_result[where h=h and c=c, OF n(1)])
  have ih: "(h c' = CPending \<longrightarrow> consume h wh n = Some (filter wh es, Suspended c'))
       \<and> (h c' = CCancelled \<longrightarrow> consume h wh n = Some (filter wh es, StopAsyncIteration))"
    by (rule Cons.IH[OF n(2)])
  show ?case
  proof (cases "wh e")
    case True
    have "consume h wh c = Option.bind (consume h wh n) (\<lambda>(es, r). Some (e # es, r))"
      by (subst consume.simps) (simp add: ar True)
    then show ?thesis using ih True by auto
  next
    case False
    have "consume h wh c = consume h wh n"
      by (subst consume.simps, subst (2) consume.simps) (simp add: ar False)
    then show ?thesis using ih False by simp
  qed
qed

lemma subscribed_emit:
  assumes "subscribed a ty f0 obs s f"
    and "distinct (source ev # ancestors (tasks s ! source ev))" "distinct (mro ev)"
    and "emit ev s = (s', None)"
  shows "\<exists>f'. subscribed a ty f0 (obs @ (if passes (tasks s) a ty ev then [ev] else [])) s' f'"
proof -
  let ?K = "set (source ev # ancestors (tasks s ! source ev)) \<times> set (mro ev)"
  have wf: "wf_cursors s" and l: "linked (futs s) (nfut s) f0 obs f"
    and c: "map_of (cursors s a) ty = Some f" and p: "futs s f = CPending"
    using assms(1) by (simp_all add: subscribed_def)
  have d: "delivered ev ?K s s'" by (rule emit_delivered[OF wf assms(2,3,4)])
  have wf': "wf_cursors s'" by (rule delivered_wf[OF d])
  have n: "nfut s \<le> nfut s'" using d by (simp add: delivered_def)
  have keep: "\<And>g. g < nfut s \<Longrightarrow> futs s g \<noteq> CPending \<Longrightarrow> futs s' g = futs s g"
    using d by (simp add: delivered_def)
  have l': "linked (futs s') (nfut s') f0 obs f" by (rule linked_kept[OF l n keep])
  have fl: "f < nfut s'" using wf c n unfolding wf_cursors_def by force
  show ?thesis
  proof (cases "passes (tasks s) a ty ev")
    case True
    then have k: "(a, ty) \<in> ?K" by (simp add: passes_def)
    obtain f1 where f1: "futs s' f = CResult ev f1" "map_of (cursors s' a) ty = Some f1"
        "futs s' f1 = CPending"
      using d k c unfolding delivered_def by blast
    have "linked (futs s') (nfut s') f0 (obs @ [ev]) f1" by (rule linked_snoc[OF l' fl f1(1)])
    then have "subscribed a ty f0 (obs @ [ev]) s' f1"
      using wf' f1 by (simp add: subscribed_def)
    then show ?thesis using True by auto
  next
    case False
    then have k: "(a, ty) \<notin> ?K" by (simp add: passes_def)
    have "map_of (cursors s' a) ty = Some f" "futs s' f = CPending"
      using d k c p unfolding delivered_def by auto
    then have "subscribed a ty f0 obs s' f" using wf' l' by (simp add: subscribed_def)
    then show ?thesis using False by auto
  qed
qed

lemma subscribed_emit_all:
  assumes "subscribed a ty f0 obs s f"
    and "\<forall>e \<in> set es. distinct (source e # ancestors (tasks s ! source e)) \<and> distinct (mro e)"
    and "emit_all es s = (s', None)"
  shows "\<exists>f'. subscribed a ty f0 (obs @ filter (passes (tasks s) a ty) es) s' f'"
  using assms
proof (induction es arbitrary: s obs f)
  case Nil
  then show ?case by auto
next
  case (Cons e es)
  obtain s1 r where em: "emit e s = (s1, r)" by force
  have rn: "r = None" using Cons.prems(3) em by (cases r) simp_all
  have rest: "emit_all es s1 = (s', None)" using Cons.prems(3) em rn by simp
  have t1: "tasks s1 = tasks s" using tasks_emit[of e s] em by simp
  have de: "distinct (source e # ancestors (tasks s ! source e))" "distinct (mro e)"
    using Cons.prems(2) by simp_all
  have em1: "emit e s = (s1, None)" using em rn by simp
  obtain f1 where f1: "subscribed a ty f0 (obs @ (if passes (tasks s) a ty e then [e] else [])) s1 f1"
    using subscribed_emit[OF Cons.prems(1) de em1] by blast
  have d: "\<forall>e \<in> set es. distinct (source e # ancestors (tasks s1 ! source e)) \<and> distinct (mro e)"
    using Cons.prems(2) t1 by simp
  obtain f' where "subscribed a ty f0
      ((obs @ (if passes (tasks s) a ty e then [e] else [])) @ filter (passes (tasks s1) a ty) es) s' f'"
    using Cons.IH[OF f1 d rest] by blast
  then show ?case using t1 by (auto split: if_splits)
qed

text \<open>
  C9. A subscriber holds the cursor \<open>f\<close> that task \<open>a\<close> has for the event type \<open>ty\<close>,
  still pending. The events \<open>es\<close> are then emitted, by any tasks, and every emission
  returns. The loop of the subscriber over its stream is handed exactly the events of
  \<open>es\<close> that pass the cursor (emitted by \<open>a\<close> or a descendant, of type \<open>ty\<close> or a
  subtype) and that its filter accepts, in the order of emission, and then waits. Once
  the cleanup of \<open>a\<close> has cancelled the cursor, the loop is handed the same events and
  then ends with \<^verbatim>\<open>StopAsyncIteration\<close>.
\<close>

theorem events_in_emission_order:
  assumes "wf_cursors s"
    and "map_of (cursors s a) ty = Some f" "futs s f = CPending"
    and "\<forall>e \<in> set es. distinct (source e # ancestors (tasks s ! source e)) \<and> distinct (mro e)"
    and "emit_all es s = (s', None)"
  shows "\<exists>f'. consume (futs s') wh f =
           Some (filter wh (filter (passes (tasks s) a ty) es), Suspended f')
       \<and> (\<not> cleaned_up (tasks s' ! a) \<longrightarrow>
            consume (futs (cleanup a s')) wh f =
              Some (filter wh (filter (passes (tasks s) a ty) es), StopAsyncIteration))"
proof -
  let ?obs = "filter (passes (tasks s) a ty) es"
  have "subscribed a ty f [] s f" using assms(1,2,3) by (simp add: subscribed_def)
  then obtain f' where "subscribed a ty f ([] @ ?obs) s' f'"
    using subscribed_emit_all[OF _ assms(4,5)] by blast
  then have l: "linked (futs s') (nfut s') f ?obs f'"
    and c: "map_of (cursors s' a) ty = Some f'" and p: "futs s' f' = CPending"
    by (simp_all add: subscribed_def)
  have a1: "consume (futs s') wh f = Some (filter wh ?obs, Suspended f')"
    using consume_linked[OF l, of wh] p by simp
  have a2: "consume (futs (cleanup a s')) wh f = Some (filter wh ?obs, StopAsyncIteration)"
    if nc: "\<not> cleaned_up (tasks s' ! a)"
  proof -
    have "(ty, f') \<in> set (cursors s' a)" using c by (rule map_of_SomeD)
    then have mem: "f' \<in> snd ` set (cursors s' a)" by force
    have g: "futs (cleanup a s') f' = CCancelled"
      using p mem by (simp add: futs_cleanup[OF nc])
    have k: "\<And>g. g < nfut s' \<Longrightarrow> futs s' g \<noteq> CPending \<Longrightarrow> futs (cleanup a s') g = futs s' g"
      by (simp add: futs_cleanup[OF nc])
    have "linked (futs (cleanup a s')) (nfut s') f ?obs f'"
      by (rule linked_kept[OF l order_refl k])
    then show ?thesis using consume_linked[of "futs (cleanup a s')" "nfut s'" f ?obs f' wh] g by simp
  qed
  show ?thesis using a1 a2 by blast
qed

lemma c9_wf: "wf_cursors c9_s"
proof -
  have "cursors c9_s = (\<lambda>_. [])(0 := [(TaskEventT, 0)])" "nfut c9_s = 1"
    by (simp_all add: c9_s_def c9_tasks_def events_def init_state_def)
  then show ?thesis by (auto simp: wf_cursors_def split: if_splits)
qed

text \<open>
  In \<open>c9_s\<close> the subscriber holds cursor 0. After the two emissions it is handed both
  events in order without a filter; with the filter, and after the cleanup of the root,
  it is handed the second event and the stream ends.
\<close>

theorem events_in_emission_order_witness:
  "snd (events 0 TaskEventT c9_tasks) = 0
   \<and> (\<exists>f'. consume (futs c9_s2) (\<lambda>_. True) 0 = Some ([c9_e1, c9_e2], Suspended f'))
   \<and> consume (futs (cleanup 0 c9_s2)) c9_where 0 = Some ([c9_e2], StopAsyncIteration)"
proof -
  have f: "snd (events 0 TaskEventT c9_tasks) = 0" by code_simp
  have h: "map_of (cursors c9_s 0) TaskEventT = Some 0" "futs c9_s 0 = CPending"
    "\<forall>e \<in> set [c9_e1, c9_e2].
        distinct (source e # ancestors (tasks c9_s ! source e)) \<and> distinct (mro e)"
    by code_simp+
  have n: "snd (emit_all [c9_e1, c9_e2] c9_s) = None" "\<not> cleaned_up (tasks c9_s2 ! 0)"
    by code_simp+
  have e: "emit_all [c9_e1, c9_e2] c9_s = (c9_s2, None)"
    using n(1) by (simp add: c9_s2_def prod_eq_iff)
  have o: "filter (passes (tasks c9_s) 0 TaskEventT) [c9_e1, c9_e2] = [c9_e1, c9_e2]"
    "filter (\<lambda>_. True) [c9_e1, c9_e2] = [c9_e1, c9_e2]"
    "filter c9_where [c9_e1, c9_e2] = [c9_e2]"
    by code_simp+
  show ?thesis
    using events_in_emission_order [OF c9_wf h e, where wh="\<lambda>_. True"]
      events_in_emission_order [OF c9_wf h e, where wh=c9_where] f n(2)
    unfolding o by blast
qed

end
